theory Spec2Isabelle
  imports Main
begin

section \<open>Python strings\<close>

text \<open>
  A Python \<^verbatim>\<open>str\<close> is a sequence of Unicode code points, so it is modelled as a list of
  integers, one per code point (an Isabelle \<open>char\<close> is a byte and could not hold the
  markers of the manuscript dialect). \<open>ascii\<close> embeds an ASCII literal.
\<close>

type_synonym ustr = "int list"

definition ascii :: "string \<Rightarrow> ustr" where
  "ascii s = map of_char s"

text \<open>
  \<^verbatim>\<open>str.isspace\<close> of a single code point (CPython, Unicode 14): the characters that
  \<^verbatim>\<open>str.strip()\<close> with no argument removes.
\<close>

definition isspace :: "int \<Rightarrow> bool" where
  "isspace c \<longleftrightarrow>
     (9 \<le> c \<and> c \<le> 13) \<or> (28 \<le> c \<and> c \<le> 32) \<or> c = 133 \<or> c = 160 \<or> c = 5760 \<or>
     (8192 \<le> c \<and> c \<le> 8202) \<or> c = 8232 \<or> c = 8233 \<or> c = 8239 \<or> c = 8287 \<or> c = 12288"

text \<open>\<^verbatim>\<open>s.strip()\<close>: whitespace removed at both ends.\<close>

definition strip :: "ustr \<Rightarrow> ustr" where
  "strip s = rev (dropWhile isspace (rev (dropWhile isspace s)))"

text \<open>\<^verbatim>\<open>s.rstrip('\n')\<close>: every trailing line feed (code point 10) removed.\<close>

definition rstrip_nl :: "ustr \<Rightarrow> ustr" where
  "rstrip_nl s = rev (dropWhile (\<lambda>c. c = 10) (rev s))"

text \<open>\<^verbatim>\<open>s.startswith(p)\<close>.\<close>

definition startswith :: "ustr \<Rightarrow> ustr \<Rightarrow> bool" where
  "startswith s p \<longleftrightarrow> take (length p) s = p"

text \<open>
  \<^verbatim>\<open>line[4:-1]\<close>: the code points from index 4 up to, and without, the last one; empty
  when the line has five code points or fewer.
\<close>

definition slice_4_m1 :: "ustr \<Rightarrow> ustr" where
  "slice_4_m1 s = butlast (drop 4 s)"

section \<open>The fixed tokens of the manuscript dialect\<close>

text \<open>The metadata delimiter: nine times U+2501.\<close>

definition delimiter :: ustr where
  "delimiter = replicate 9 9473"

text \<open>The title marker U+300C U+4E66 U+540D U+FF1A.\<close>

definition title_marker :: ustr where
  "title_marker = [12300, 20070, 21517, 65306]"

text \<open>The author marker U+300C U+4F5C U+8005 U+FF1A.\<close>

definition author_marker :: ustr where
  "author_marker = [12300, 20316, 32773, 65306]"

text \<open>The description marker U+300C U+4E66 U+7C4D U+7B80 U+4ECB U+FF1A.\<close>

definition description_marker :: ustr where
  "description_marker = [12300, 20070, 31821, 31616, 20171, 65306]"

text \<open>The literal start of a volume header: \<^verbatim>\<open>[\<close> U+5377 U+540D \<^verbatim>\<open>]\<close> and a space.\<close>

definition volume_prefix :: ustr where
  "volume_prefix = [91, 21367, 21517, 93, 32]"

text \<open>
  \<^verbatim>\<open>volume_pattern.match(line)\<close> for the pattern \<^verbatim>\<open>^\[..\] (.+)$\<close>: the line starts with the
  literal prefix, \<^verbatim>\<open>.+\<close> takes one or more code points other than a line feed, and \<^verbatim>\<open>$\<close>
  holds at the end of the string or just before a line feed that ends it. The result is
  group 1 of the match.
\<close>

definition volume_match :: "ustr \<Rightarrow> ustr option" where
  "volume_match line =
     (if startswith line volume_prefix then
        (let rest = drop (length volume_prefix) line;
             g1 = takeWhile (\<lambda>c. c \<noteq> 10) rest;
             after = dropWhile (\<lambda>c. c \<noteq> 10) rest
         in if g1 \<noteq> [] \<and> (after = [] \<or> after = [10]) then Some g1 else None)
      else None)"

section \<open>The document model and the generator object\<close>

record chap =
  ch_title :: ustr
  ch_content :: "ustr list"

record volume =
  vol_title :: ustr
  vol_chapters :: "chap list"

record manifest_item =
  item_id :: ustr
  item_href :: ustr
  item_media_type :: ustr

record spine_item =
  idref :: ustr

text \<open>
  The fields of \<^verbatim>\<open>EpubGenerator\<close>. \<open>current_volume\<close> and \<open>current_chapter\<close> are references
  in the source: to a volume that is an element of \<open>books\<close>, and to a chapter that is an
  element of that volume's chapter list. They are modelled as the position of the element
  in its list (\<open>None\<close> for Python's \<^verbatim>\<open>None\<close>), and a mutation through the reference is an update
  of the list at that position. The three entries of the \<^verbatim>\<open>metadata\<close> dictionary are the
  fields \<open>md_title\<close>, \<open>md_author\<close> and \<open>md_description\<close>. The two paths of the object
  are left out (the content of the input file and the tree of generated files are
  arguments of the functions that read them), and so is \<^verbatim>\<open>nav_points\<close>, which no method
  reads or writes.
\<close>

record generator =
  books :: "volume list"
  current_volume :: "nat option"
  current_chapter :: "nat option"
  manifest :: "manifest_item list"
  spine :: "spine_item list"
  md_title :: ustr
  md_author :: ustr
  md_description :: ustr

text \<open>The object after \<^verbatim>\<open>__init__\<close>; the two default strings are the source's placeholders.\<close>

definition init :: generator where
  "init = \<lparr> books = [], current_volume = None, current_chapter = None,
            manifest = [], spine = [],
            md_title = [40664, 35748, 26631, 39064],
            md_author = [40664, 35748, 20316, 32773],
            md_description = [] \<rparr>"

datatype error = IndexError | KeyError string | FileNotFoundError

section \<open>The parser\<close>

text \<open>
  The test of line 58 of the source: the untrimmed line starts with neither an ordinary
  space nor U+3000, and its trimmed form is not empty.
\<close>

definition chapter_header :: "ustr \<Rightarrow> bool" where
  "chapter_header line \<longleftrightarrow>
     \<not> (startswith line [32] \<or> startswith line [12288]) \<and> strip line \<noteq> []"

text \<open>Appending a chapter to the volume at position \<open>v\<close>.\<close>

definition append_chapter :: "nat \<Rightarrow> chap \<Rightarrow> volume list \<Rightarrow> volume list" where
  "append_chapter v ch bs =
     bs[v := (bs ! v)\<lparr>vol_chapters := vol_chapters (bs ! v) @ [ch]\<rparr>]"

text \<open>Appending a line to the content of chapter \<open>c\<close> of the volume at position \<open>v\<close>.\<close>

definition append_content :: "nat \<Rightarrow> nat \<Rightarrow> ustr \<Rightarrow> volume list \<Rightarrow> volume list" where
  "append_content v c line bs =
     bs[v := (bs ! v)\<lparr>vol_chapters :=
        (vol_chapters (bs ! v))[c := (vol_chapters (bs ! v) ! c)
           \<lparr>ch_content := ch_content (vol_chapters (bs ! v) ! c) @ [line]\<rparr>]\<rparr>]"

text \<open>
  Lines 49 to 65 of the source: one line read in the scanning state (the line has lost
  its line feed already).
\<close>

definition scan_line :: "generator \<Rightarrow> ustr \<Rightarrow> generator" where
  "scan_line g line =
     (case volume_match line of
        Some t \<Rightarrow>
          g\<lparr>books := books g @ [\<lparr>vol_title = t, vol_chapters = []\<rparr>],
            current_volume := Some (length (books g)),
            current_chapter := None\<rparr>
      | None \<Rightarrow>
          (case current_volume g of
             None \<Rightarrow> g
           | Some v \<Rightarrow>
               (let stripped_line = strip line in
                if \<not> (startswith line [32] \<or> startswith line [12288]) \<and> stripped_line \<noteq> [] then
                  g\<lparr>books := append_chapter v \<lparr>ch_title = stripped_line, ch_content = []\<rparr> (books g),
                    current_chapter := Some (length (vol_chapters (books g ! v)))\<rparr>
                else
                  (case current_chapter g of
                     None \<Rightarrow> g
                   | Some c \<Rightarrow> g\<lparr>books := append_content v c line (books g)\<rparr>))))"

text \<open>
  The loop of \<^verbatim>\<open>parse_txt\<close> over the lines that \<^verbatim>\<open>readlines\<close> returned. The first
  argument is the local \<^verbatim>\<open>metadata_section\<close>; the list is the lines from index \<open>i\<close> on, so
  \<^verbatim>\<open>lines[i+1]\<close> is the head of the rest, and an \<^verbatim>\<open>IndexError\<close> when the rest is empty.
\<close>

fun parse_loop :: "bool \<Rightarrow> generator \<Rightarrow> ustr list \<Rightarrow> error + generator" where
  "parse_loop metadata_section g [] = Inr g"
| "parse_loop metadata_section g (raw # rest) =
     (let line = rstrip_nl raw in
      if line = delimiter then parse_loop True g rest
      else if metadata_section then
        (if startswith line title_marker then
           parse_loop True (g\<lparr>md_title := slice_4_m1 line\<rparr>) rest
         else if startswith line author_marker then
           parse_loop True (g\<lparr>md_author := slice_4_m1 line\<rparr>) rest
         else if startswith line description_marker then
           (case rest of
              [] \<Rightarrow> Inl IndexError
            | nxt # _ \<Rightarrow> parse_loop False (g\<lparr>md_description := strip nxt\<rparr>) rest)
         else parse_loop True g rest)
      else parse_loop False (scan_line g line) rest)"

text \<open>
  Reading the file: \<^verbatim>\<open>open\<close> in text mode translates \<^verbatim>\<open>\r\n\<close> and a lone \<^verbatim>\<open>\r\<close> to a line
  feed, and \<^verbatim>\<open>readlines\<close> cuts the text after every line feed, keeping it.
\<close>

fun universal_newlines :: "ustr \<Rightarrow> ustr" where
  "universal_newlines [] = []"
| "universal_newlines [c] = (if c = 13 then [10] else [c])"
| "universal_newlines (c # d # cs) =
     (if c = 13 \<and> d = 10 then 10 # universal_newlines cs
      else if c = 13 then 10 # universal_newlines (d # cs)
      else c # universal_newlines (d # cs))"

fun readlines :: "ustr \<Rightarrow> ustr list" where
  "readlines [] = []"
| "readlines (c # cs) =
     (if c = 10 then [10] # readlines cs
      else (case readlines cs of [] \<Rightarrow> [[c]] | l # ls \<Rightarrow> (c # l) # ls))"

text \<open>
  \<^verbatim>\<open>parse_txt\<close> on a generator object and the decoded content of the input file.
\<close>

definition parse_txt :: "generator \<Rightarrow> ustr \<Rightarrow> error + generator" where
  "parse_txt g text = parse_loop False g (readlines (universal_newlines text))"

text \<open>
  The lines that the loop reads in the scanning state, each without its line feed: the
  control flow of \<open>parse_loop\<close> with the generator left out.
\<close>

fun scanned :: "bool \<Rightarrow> ustr list \<Rightarrow> ustr list" where
  "scanned metadata_section [] = []"
| "scanned metadata_section (raw # rest) =
     (let line = rstrip_nl raw in
      if line = delimiter then scanned True rest
      else if metadata_section then
        (if startswith line title_marker then scanned True rest
         else if startswith line author_marker then scanned True rest
         else if startswith line description_marker then scanned False rest
         else scanned True rest)
      else line # scanned False rest)"

definition is_volume_header :: "ustr \<Rightarrow> bool" where
  "is_volume_header line \<longleftrightarrow> volume_match line \<noteq> None"

text \<open>A chapter header: a line that is no volume header and passes the test of line 58.\<close>

definition is_chapter_header :: "ustr \<Rightarrow> bool" where
  "is_chapter_header line \<longleftrightarrow> volume_match line = None \<and> chapter_header line"

definition total_chapters :: "volume list \<Rightarrow> nat" where
  "total_chapters bs = sum_list (map (\<lambda>v. length (vol_chapters v)) bs)"

definition titles_nonempty :: "volume list \<Rightarrow> bool" where
  "titles_nonempty bs \<longleftrightarrow> list_all (\<lambda>v. list_all (\<lambda>c. ch_title c \<noteq> []) (vol_chapters v)) bs"

text \<open>
  The two references of the generator, as the source keeps them: the current volume is
  the last element of \<open>books\<close> (and there is none exactly when \<open>books\<close> is empty), and the
  current chapter is the last chapter of the current volume (and there is none exactly
  when that volume has no chapter).
\<close>

definition refs_ok :: "generator \<Rightarrow> bool" where
  "refs_ok g \<longleftrightarrow>
     (case current_volume g of
        None \<Rightarrow> books g = [] \<and> current_chapter g = None
      | Some v \<Rightarrow> Suc v = length (books g) \<and>
          (case current_chapter g of
             None \<Rightarrow> vol_chapters (books g ! v) = []
           | Some c \<Rightarrow> Suc c = length (vol_chapters (books g ! v))))"

section \<open>The inline transformer\<close>

text \<open>\<^verbatim>\<open>text.replace(c, ':')\<close> for the full-width colon U+FF1A.\<close>

definition replace_colon :: "ustr \<Rightarrow> ustr" where
  "replace_colon s = map (\<lambda>c. if c = 65306 then 58 else c) s"

text \<open>
  \<^verbatim>\<open>\d\<close> in a \<^verbatim>\<open>str\<close> pattern: a decimal digit of any script (Unicode category Nd, here of
  Unicode 14, as ranges of code points; the first range is \<^verbatim>\<open>0\<close> to \<^verbatim>\<open>9\<close>).
\<close>

definition is_digit :: "int \<Rightarrow> bool" where
  "is_digit c \<longleftrightarrow>
    (48 \<le> c \<and> c \<le> 57) \<or> (1632 \<le> c \<and> c \<le> 1641) \<or>
     (1776 \<le> c \<and> c \<le> 1785) \<or> (1984 \<le> c \<and> c \<le> 1993) \<or>
     (2406 \<le> c \<and> c \<le> 2415) \<or> (2534 \<le> c \<and> c \<le> 2543) \<or>
     (2662 \<le> c \<and> c \<le> 2671) \<or> (2790 \<le> c \<and> c \<le> 2799) \<or>
     (2918 \<le> c \<and> c \<le> 2927) \<or> (3046 \<le> c \<and> c \<le> 3055) \<or>
     (3174 \<le> c \<and> c \<le> 3183) \<or> (3302 \<le> c \<and> c \<le> 3311) \<or>
     (3430 \<le> c \<and> c \<le> 3439) \<or> (3558 \<le> c \<and> c \<le> 3567) \<or>
     (3664 \<le> c \<and> c \<le> 3673) \<or> (3792 \<le> c \<and> c \<le> 3801) \<or>
     (3872 \<le> c \<and> c \<le> 3881) \<or> (4160 \<le> c \<and> c \<le> 4169) \<or>
     (4240 \<le> c \<and> c \<le> 4249) \<or> (6112 \<le> c \<and> c \<le> 6121) \<or>
     (6160 \<le> c \<and> c \<le> 6169) \<or> (6470 \<le> c \<and> c \<le> 6479) \<or>
     (6608 \<le> c \<and> c \<le> 6617) \<or> (6784 \<le> c \<and> c \<le> 6793) \<or>
     (6800 \<le> c \<and> c \<le> 6809) \<or> (6992 \<le> c \<and> c \<le> 7001) \<or>
     (7088 \<le> c \<and> c \<le> 7097) \<or> (7232 \<le> c \<and> c \<le> 7241) \<or>
     (7248 \<le> c \<and> c \<le> 7257) \<or> (42528 \<le> c \<and> c \<le> 42537) \<or>
     (43216 \<le> c \<and> c \<le> 43225) \<or> (43264 \<le> c \<and> c \<le> 43273) \<or>
     (43472 \<le> c \<and> c \<le> 43481) \<or> (43504 \<le> c \<and> c \<le> 43513) \<or>
     (43600 \<le> c \<and> c \<le> 43609) \<or> (44016 \<le> c \<and> c \<le> 44025) \<or>
     (65296 \<le> c \<and> c \<le> 65305) \<or> (66720 \<le> c \<and> c \<le> 66729) \<or>
     (68912 \<le> c \<and> c \<le> 68921) \<or> (69734 \<le> c \<and> c \<le> 69743) \<or>
     (69872 \<le> c \<and> c \<le> 69881) \<or> (69942 \<le> c \<and> c \<le> 69951) \<or>
     (70096 \<le> c \<and> c \<le> 70105) \<or> (70384 \<le> c \<and> c \<le> 70393) \<or>
     (70736 \<le> c \<and> c \<le> 70745) \<or> (70864 \<le> c \<and> c \<le> 70873) \<or>
     (71248 \<le> c \<and> c \<le> 71257) \<or> (71360 \<le> c \<and> c \<le> 71369) \<or>
     (71472 \<le> c \<and> c \<le> 71481) \<or> (71904 \<le> c \<and> c \<le> 71913) \<or>
     (72016 \<le> c \<and> c \<le> 72025) \<or> (72784 \<le> c \<and> c \<le> 72793) \<or>
     (73040 \<le> c \<and> c \<le> 73049) \<or> (73120 \<le> c \<and> c \<le> 73129) \<or>
     (92768 \<le> c \<and> c \<le> 92777) \<or> (92864 \<le> c \<and> c \<le> 92873) \<or>
     (93008 \<le> c \<and> c \<le> 93017) \<or>
     (120782 \<le> c \<and> c \<le> 120831) \<or>
     (123200 \<le> c \<and> c \<le> 123209) \<or>
     (123632 \<le> c \<and> c \<le> 123641) \<or>
     (125264 \<le> c \<and> c \<le> 125273) \<or>
     (130032 \<le> c \<and> c \<le> 130041)"

text \<open>The class of separators of the pattern: U+FF0C, a comma, a space.\<close>

definition is_sep :: "int \<Rightarrow> bool" where
  "is_sep c \<longleftrightarrow> c = 65292 \<or> c = 44 \<or> c = 32"

text \<open>
  The letters \<^verbatim>\<open>i\<close>, \<^verbatim>\<open>m\<close>, \<^verbatim>\<open>g\<close> under \<^verbatim>\<open>re.IGNORECASE\<close>: both cases, and for \<^verbatim>\<open>i\<close> also U+0130
  and U+0131, which Python's case-insensitive matching of a \<^verbatim>\<open>str\<close> pattern accepts.
\<close>

definition ci_i :: "int \<Rightarrow> bool" where
  "ci_i c \<longleftrightarrow> c = 105 \<or> c = 73 \<or> c = 304 \<or> c = 305"

definition ci_m :: "int \<Rightarrow> bool" where
  "ci_m c \<longleftrightarrow> c = 109 \<or> c = 77"

definition ci_g :: "int \<Rightarrow> bool" where
  "ci_g c \<longleftrightarrow> c = 103 \<or> c = 71"

text \<open>The text starts with \<^verbatim>\<open>[img=\<close>, read without case.\<close>

fun open_at :: "ustr \<Rightarrow> bool" where
  "open_at (a # b # c # d # e # r) \<longleftrightarrow> a = 91 \<and> ci_i b \<and> ci_m c \<and> ci_g d \<and> e = 61"
| "open_at _ \<longleftrightarrow> False"

text \<open>The text starts with \<^verbatim>\<open>[/img]\<close>, read without case.\<close>

fun close_at :: "ustr \<Rightarrow> bool" where
  "close_at (a # b # c # d # e # f # r) \<longleftrightarrow>
     a = 91 \<and> b = 47 \<and> ci_i c \<and> ci_m d \<and> ci_g e \<and> f = 93"
| "close_at _ \<longleftrightarrow> False"

text \<open>
  The tail \<^verbatim>\<open>(.*?)\[/img\]\<close> of the pattern: the lazy group grows by one code point at a
  time, never over a line feed, until the closing tag follows. The result is group 3.
\<close>

fun find_close :: "ustr \<Rightarrow> ustr option" where
  "find_close [] = None"
| "find_close (c # cs) =
     (if close_at (c # cs) then Some []
      else if c = 10 then None
      else (case find_close cs of None \<Rightarrow> None | Some t \<Rightarrow> Some (c # t)))"

text \<open>
  A match of the whole pattern \<^verbatim>\<open>\[img=(\d+)[..]*(\d+)\](.*?)\[/img\]\<close> at the start of the
  text, as the backtracking matcher finds it: groups 1, 2 and 3 and the length of the
  match. After \<^verbatim>\<open>[img=\<close> come the longest run of digits, the longest run of separators and
  again the longest run of digits. When there is a separator, the two runs of digits are
  the groups (a shorter first group would have to be followed by a digit or \<^verbatim>\<open>]\<close>, and is
  followed by a separator). When there is none, the first group gives back digits until
  the second has one: group 2 is the last digit of the run and group 1 the digits before
  it. In both cases \<^verbatim>\<open>]\<close> must follow the digits.
\<close>

definition match_img :: "ustr \<Rightarrow> (ustr \<times> ustr \<times> ustr \<times> nat) option" where
  "match_img s =
     (if open_at s then
        (let r = drop 5 s;
             d1 = takeWhile is_digit r; r1 = dropWhile is_digit r;
             sp = takeWhile is_sep r1; r2 = dropWhile is_sep r1;
             d2 = takeWhile is_digit r2; r3 = dropWhile is_digit r2
         in if d1 = [] then None
            else if sp \<noteq> [] then
              (if d2 \<noteq> [] \<and> take 1 r3 = [93] then
                 (case find_close (drop 1 r3) of
                    None \<Rightarrow> None
                  | Some t \<Rightarrow>
                      Some (d1, d2, t, 5 + length d1 + length sp + length d2 + 1 + length t + 6))
               else None)
            else
              (if 2 \<le> length d1 \<and> take 1 r1 = [93] then
                 (case find_close (drop 1 r1) of
                    None \<Rightarrow> None
                  | Some t \<Rightarrow>
                      Some (butlast d1, [last d1], t, 5 + length d1 + 1 + length t + 6))
               else None))
      else None)"

text \<open>The replacement template, with its three group references filled in.\<close>

definition img_element :: "ustr \<Rightarrow> ustr \<Rightarrow> ustr \<Rightarrow> ustr" where
  \<open>img_element src w h =
     ascii ''<img src="'' @ src @ ascii ''" width="'' @ w @ ascii ''" height="'' @ h @ ascii ''"/>''\<close>

text \<open>
  \<^verbatim>\<open>img_pattern.sub\<close>: from left to right, a match is replaced and the scan goes on after
  it; where nothing matches, the code point is kept.
\<close>

fun img_sub :: "ustr \<Rightarrow> ustr" where
  "img_sub [] = []"
| "img_sub (c # cs) =
     (case match_img (c # cs) of
        None \<Rightarrow> c # img_sub cs
      | Some (w, h, src, n) \<Rightarrow> img_element src w h @ img_sub (drop (n - 1) cs))"

definition process_images :: "ustr \<Rightarrow> ustr" where
  "process_images s = img_sub (replace_colon s)"

text \<open>
  An image tag as the claim describes it, written from the claim and not from the
  pattern: the letters of the opening and of the closing tag, the width, the run of
  separators, the height and the text between the tags.
\<close>

record img_tag =
  open_i :: int
  open_m :: int
  open_g :: int
  width :: ustr
  separators :: ustr
  height :: ustr
  src_text :: ustr
  close_i :: int
  close_m :: int
  close_g :: int

text \<open>The text of a tag: \<^verbatim>\<open>[img=\<close>, width, separators, height, \<^verbatim>\<open>]\<close>, text, \<^verbatim>\<open>[/img]\<close>.\<close>

definition tag_text :: "img_tag \<Rightarrow> ustr" where
  "tag_text tg =
     [91, open_i tg, open_m tg, open_g tg, 61] @ width tg @ separators tg @ height tg @ [93]
     @ src_text tg @ [91, 47, close_i tg, close_m tg, close_g tg, 93]"

text \<open>A closing tag starts somewhere in the text.\<close>

fun contains_close :: "ustr \<Rightarrow> bool" where
  "contains_close [] \<longleftrightarrow> False"
| "contains_close (c # cs) \<longleftrightarrow> close_at (c # cs) \<or> contains_close cs"

text \<open>
  A well-formed tag: the letters are those of \<^verbatim>\<open>img\<close> in any case, width and height are
  non-empty runs of digits, between them stands any run of separators (with none, the
  height is the one last digit), and the text runs to the first closing tag without
  crossing a line feed.
\<close>

definition tag_ok :: "img_tag \<Rightarrow> bool" where
  "tag_ok tg \<longleftrightarrow>
     ci_i (open_i tg) \<and> ci_m (open_m tg) \<and> ci_g (open_g tg) \<and>
     ci_i (close_i tg) \<and> ci_m (close_m tg) \<and> ci_g (close_g tg) \<and>
     width tg \<noteq> [] \<and> list_all is_digit (width tg) \<and>
     list_all is_sep (separators tg) \<and>
     height tg \<noteq> [] \<and> list_all is_digit (height tg) \<and>
     (if separators tg = [] then length (height tg) = 1 else True) \<and>
     10 \<notin> set (src_text tg) \<and> \<not> contains_close (src_text tg)"

section \<open>The content document generator\<close>

text \<open>The decimal digits of a number, as an f-string formats an \<^verbatim>\<open>int\<close> that is not negative.\<close>

fun str_of_nat :: "nat \<Rightarrow> ustr" where
  "str_of_nat n =
     (if n < 10 then [48 + int n] else str_of_nat (n div 10) @ [48 + int (n mod 10)])"

text \<open>\<^verbatim>\<open>f'vol{vol_idx}_chap{chap_idx}.xhtml'\<close>.\<close>

definition chapter_filename :: "nat \<Rightarrow> nat \<Rightarrow> ustr" where
  "chapter_filename vol_idx chap_idx =
     ascii ''vol'' @ str_of_nat vol_idx @ ascii ''_chap'' @ str_of_nat chap_idx @ ascii ''.xhtml''"

text \<open>\<^verbatim>\<open>filename.split('.')[0]\<close>: the text before the first full stop (all of it without one).\<close>

definition split_dot_0 :: "ustr \<Rightarrow> ustr" where
  "split_dot_0 s = takeWhile (\<lambda>c. c \<noteq> 46) s"

text \<open>One paragraph of a chapter document (lines 103 to 107).\<close>

definition render_paragraph :: "ustr \<Rightarrow> ustr" where
  "render_paragraph para =
     (if strip para = [] then ascii ''<p>&#160;</p>''
      else ascii ''<p>'' @ process_images para @ ascii ''</p>'')"

text \<open>
  A chapter document written to disk: its path, and the two values that the fixed
  template of lines 109 to 122 is filled with, the chapter title (used twice) and the
  joined paragraphs. The fixed markup of the template is not modelled.
\<close>

record document =
  doc_path :: ustr
  doc_title :: ustr
  doc_body :: ustr

text \<open>
  The inner loop of \<^verbatim>\<open>generate_chapters\<close> over the chapters of one volume, from chapter
  index \<open>chap_idx\<close> on. The state is the generator object with the files written so far.
\<close>

fun generate_volume ::
  "nat \<Rightarrow> nat \<Rightarrow> chap list \<Rightarrow> generator \<times> document list \<Rightarrow> generator \<times> document list" where
  "generate_volume vol_idx chap_idx [] s = s"
| "generate_volume vol_idx chap_idx (chapter # rest) s =
     (let filename = chapter_filename vol_idx chap_idx;
          g = fst s
      in generate_volume vol_idx (Suc chap_idx) rest
           (g\<lparr>manifest := manifest g @
                [\<lparr>item_id = split_dot_0 filename, item_href = filename,
                  item_media_type = ascii ''application/xhtml+xml''\<rparr>],
              spine := spine g @ [\<lparr>idref = split_dot_0 filename\<rparr>]\<rparr>,
            snd s @
              [\<lparr>doc_path = ascii ''epub/OEBPS/'' @ filename,
                doc_title = ch_title chapter,
                doc_body = concat (map render_paragraph (ch_content chapter))\<rparr>]))"

text \<open>The outer loop over the volumes, from volume index \<open>vol_idx\<close> on.\<close>

fun generate_volumes ::
  "nat \<Rightarrow> volume list \<Rightarrow> generator \<times> document list \<Rightarrow> generator \<times> document list" where
  "generate_volumes vol_idx [] s = s"
| "generate_volumes vol_idx (volume # rest) s =
     generate_volumes (Suc vol_idx) rest (generate_volume vol_idx 1 (vol_chapters volume) s)"

text \<open>\<^verbatim>\<open>generate_chapters\<close>: the generator object afterwards, and the files it wrote, in order.\<close>

definition generate_chapters :: "generator \<Rightarrow> generator \<times> document list" where
  "generate_chapters g = generate_volumes 1 (books g) (g, [])"

text \<open>
  The identifiers in book-traversal order, written from the claim: volume-major,
  chapter-minor, both positions counted from 1.
\<close>

definition chapter_id :: "nat \<Rightarrow> nat \<Rightarrow> ustr" where
  "chapter_id n m = ascii ''vol'' @ str_of_nat n @ ascii ''_chap'' @ str_of_nat m"

definition chapter_ids :: "volume list \<Rightarrow> ustr list" where
  "chapter_ids bs =
     concat (map (\<lambda>(n, volume). map (\<lambda>(m, chapter). chapter_id n m)
                                     (enumerate 1 (vol_chapters volume)))
                 (enumerate 1 bs))"

section \<open>The navigation generator\<close>

text \<open>
  \<^verbatim>\<open>self.metadata[key]\<close>: the dictionary has the three keys \<^verbatim>\<open>title\<close>, \<^verbatim>\<open>author\<close> and
  \<^verbatim>\<open>description\<close>; any other key raises \<^verbatim>\<open>KeyError\<close>.
\<close>

definition metadata_getitem :: "generator \<Rightarrow> string \<Rightarrow> error + ustr" where
  "metadata_getitem g key =
     (if key = ''title'' then Inr (md_title g)
      else if key = ''author'' then Inr (md_author g)
      else if key = ''description'' then Inr (md_description g)
      else Inl (KeyError key))"

text \<open>
  The header of \<^verbatim>\<open>toc.ncx\<close> (lines 128 to 141) is not an f-string: it is a plain string
  literal filled by \<^verbatim>\<open>str.format(self=self)\<close>. In the replacement field
  \<^verbatim>\<open>{self.metadata['title']}\<close> the text between the brackets is taken as the key as it
  stands, so the key looked up is \<^verbatim>\<open>'title'\<close> with its two quotation marks (code point
  39), seven characters long. The result is the text put into \<^verbatim>\<open>docTitle\<close>.
\<close>

definition toc_header_key :: string where
  "toc_header_key = CHR 0x27 # ''title'' @ [CHR 0x27]"

definition toc_header :: "generator \<Rightarrow> error + ustr" where
  "toc_header g = metadata_getitem g toc_header_key"

text \<open>
  A \<^verbatim>\<open>navPoint\<close> element as the loop emits it: the number used for \<^verbatim>\<open>id\<close> and \<^verbatim>\<open>playOrder\<close>,
  the label, the content reference and the elements nested in it.
\<close>

datatype nav_point = NavPoint (play_order: nat) (nav_label: ustr) (nav_src: ustr)
  (nav_children: "nav_point list")

text \<open>
  The inner loop of lines 151 to 158: the points of the chapters of one volume and the
  value of \<^verbatim>\<open>nav_id\<close> after them.
\<close>

fun toc_chapters :: "nat \<Rightarrow> nat \<Rightarrow> nat \<Rightarrow> chap list \<Rightarrow> nav_point list \<times> nat" where
  "toc_chapters nav_id vol_idx chap_idx [] = ([], nav_id)"
| "toc_chapters nav_id vol_idx chap_idx (chapter # rest) =
     (let filename = chapter_filename vol_idx chap_idx;
          r = toc_chapters (nav_id + 1) vol_idx (Suc chap_idx) rest
      in (NavPoint nav_id (ch_title chapter) filename [] # fst r, snd r))"

text \<open>The outer loop of lines 144 to 160.\<close>

fun toc_volumes :: "nat \<Rightarrow> nat \<Rightarrow> volume list \<Rightarrow> nav_point list" where
  "toc_volumes nav_id vol_idx [] = []"
| "toc_volumes nav_id vol_idx (volume # rest) =
     (let r = toc_chapters (nav_id + 1) vol_idx 1 (vol_chapters volume)
      in NavPoint nav_id (vol_title volume)
           (ascii ''vol'' @ str_of_nat vol_idx @ ascii ''_chap1.xhtml'') (fst r)
         # toc_volumes (snd r) (Suc vol_idx) rest)"

text \<open>The file \<^verbatim>\<open>toc.ncx\<close>: the document title and the navigation map.\<close>

record toc_document =
  toc_title :: ustr
  nav_map :: "nav_point list"

text \<open>
  \<^verbatim>\<open>generate_toc\<close>: the header is formatted first; the loop and the write of the file
  come after it, and are not reached when the formatting raises.
\<close>

definition generate_toc :: "generator \<Rightarrow> error + toc_document" where
  "generate_toc g =
     (case toc_header g of
        Inl e \<Rightarrow> Inl e
      | Inr title \<Rightarrow> Inr \<lparr>toc_title = title, nav_map = toc_volumes 1 1 (books g)\<rparr>)"

text \<open>The play orders of a navigation map in the order of the elements in the file.\<close>

fun play_orders :: "nav_point \<Rightarrow> nat list" where
  "play_orders (NavPoint n l s cs) = n # concat (map play_orders cs)"

section \<open>The archiver\<close>

datatype compress_type = ZIP_STORED | ZIP_DEFLATED

text \<open>
  A directory as \<^verbatim>\<open>os.walk\<close> sees it: the names of its files and its subdirectories, each
  in the order in which the operating system lists them.
\<close>

datatype dir = Dir (dir_files: "ustr list") (dir_subdirs: "(ustr \<times> dir) list")

text \<open>
  \<^verbatim>\<open>os.path.join(root, name)\<close> for a name without a separator, with the separator \<^verbatim>\<open>/\<close> of
  a POSIX system.
\<close>

definition path_join :: "ustr \<Rightarrow> ustr \<Rightarrow> ustr" where
  "path_join root name = root @ [47] @ name"

text \<open>
  \<^verbatim>\<open>os.walk(top)\<close>, top-down: the directory with its file names, then each subdirectory
  in turn.
\<close>

fun walk :: "ustr \<Rightarrow> dir \<Rightarrow> (ustr \<times> ustr list) list"
  and walk_subdirs :: "ustr \<Rightarrow> (ustr \<times> dir) list \<Rightarrow> (ustr \<times> ustr list) list" where
  "walk root (Dir files subdirs) = (root, files) # walk_subdirs root subdirs"
| "walk_subdirs root [] = []"
| "walk_subdirs root (sub # rest) =
     walk (path_join root (fst sub)) (snd sub) @ walk_subdirs root rest"

text \<open>
  \<^verbatim>\<open>os.path.relpath(path, start)\<close> for a path that lies under \<open>start\<close>: the path without
  \<open>start\<close> and the separator after it.
\<close>

definition relpath :: "ustr \<Rightarrow> ustr \<Rightarrow> ustr" where
  "relpath path start = drop (length start + 1) path"

record zip_entry =
  arcname :: ustr
  source_path :: ustr
  compression :: compress_type

text \<open>
  The archive is opened by \<^verbatim>\<open>zipfile.ZipFile(self.output_path, 'w')\<close>: no compression is
  named, and the default of that parameter in the library is \<^verbatim>\<open>ZIP_STORED\<close>. An entry
  written by \<^verbatim>\<open>zf.write(path, arcname)\<close> takes the compression of the archive.
\<close>

definition archive_compression :: compress_type where
  "archive_compression = ZIP_STORED"

text \<open>The entries that the loop of lines 204 to 210 writes for one directory of the walk.\<close>

definition zip_directory :: "ustr \<times> ustr list \<Rightarrow> zip_entry list" where
  "zip_directory d =
     map (\<lambda>file. \<lparr>arcname = relpath (path_join (fst d) file) (ascii ''epub''),
                  source_path = path_join (fst d) file,
                  compression = archive_compression\<rparr>)
         (filter (\<lambda>file. file \<noteq> ascii ''mimetype'') (snd d))"

text \<open>
  \<^verbatim>\<open>zip_epub\<close> on the content of the directory \<^verbatim>\<open>epub\<close>: the entries of the archive in the
  order in which they are written. Writing \<^verbatim>\<open>epub/mimetype\<close> needs that file.
\<close>

definition zip_epub :: "dir \<Rightarrow> error + zip_entry list" where
  "zip_epub tree =
     (if ascii ''mimetype'' \<in> set (dir_files tree) then
        Inr (\<lparr>arcname = ascii ''mimetype'', source_path = ascii ''epub/mimetype'',
              compression = ZIP_STORED\<rparr>
             # concat (map zip_directory (walk (ascii ''epub'') tree)))
      else Inl FileNotFoundError)"

section \<open>Properties of the parser\<close>


lemma scan_line_no_volume:
  "current_volume g = None \<Longrightarrow> volume_match line = None \<Longrightarrow> scan_line g line = g"
  by (simp add: scan_line_def)

lemma scan_line_no_chapter:
  "current_chapter g = None \<Longrightarrow> volume_match line = None \<Longrightarrow> \<not> chapter_header line \<Longrightarrow> scan_line g line = g"
  by (auto simp add: scan_line_def chapter_header_def Let_def split: option.splits)

lemma parse_loop_scanning_step:
  "rstrip_nl raw \<noteq> delimiter \<Longrightarrow>
   parse_loop False g (raw # rest) = parse_loop False (scan_line g (rstrip_nl raw)) rest"
  by (simp add: Let_def)

text \<open>
  Claim C5. A line read in the scanning state that is no volume header leaves the whole
  generator object (book tree, references and metadata) as it was when there is no
  current volume, and also when there is a current volume but no current chapter and
  the line is no chapter header. The loop then goes on with the next line: nothing is
  raised.
\<close>

theorem body_line_dropped:
  assumes "volume_match line = None"
    and "current_volume g = None \<or> (current_chapter g = None \<and> \<not> chapter_header line)"
  shows "scan_line g line = g \<and>
         (if rstrip_nl raw = line \<and> line \<noteq> delimiter
          then parse_loop False g (raw # rest) = parse_loop False g rest else True)"
  using assms scan_line_no_volume scan_line_no_chapter
  by (auto simp add: Let_def)

text \<open>
  Claim C1, as the code has it. In the scanning state with a current volume, on a line
  (taken without its line feed) that is neither the metadata delimiter nor a volume
  header, the loop goes on in the scanning state, and: a chapter is started exactly when
  the trimmed line is not empty and the untrimmed line starts with neither a space nor
  U+3000. The new chapter has the trimmed line as its title and no content, is appended
  to the current volume and becomes the current chapter. Any other line leaves the
  number of chapters as it was, and is appended untrimmed to the content of the current
  chapter when there is one (nothing changes when there is none). The other volumes,
  the volume's title and the metadata are untouched.
\<close>

theorem scanning_chapter_rule:
  assumes "current_volume g = Some v" and "v < length (books g)"
    and "rstrip_nl raw = line" and "line \<noteq> delimiter" and "volume_match line = None"
  shows
    "parse_loop False g (raw # rest) = parse_loop False (scan_line g line) rest
     \<and> (if strip line \<noteq> [] \<and> \<not> startswith line [32] \<and> \<not> startswith line [12288]
      then vol_chapters (books (scan_line g line) ! v) =
             vol_chapters (books g ! v) @ [\<lparr>ch_title = strip line, ch_content = []\<rparr>]
           \<and> current_chapter (scan_line g line) = Some (length (vol_chapters (books g ! v)))
      else length (vol_chapters (books (scan_line g line) ! v)) = length (vol_chapters (books g ! v))
           \<and> (case current_chapter g of
                None \<Rightarrow> scan_line g line = g
              | Some c \<Rightarrow>
                  vol_chapters (books (scan_line g line) ! v) =
                    (vol_chapters (books g ! v))
                      [c := (vol_chapters (books g ! v) ! c)
                         \<lparr>ch_content := ch_content (vol_chapters (books g ! v) ! c) @ [line]\<rparr>]
                  \<and> current_chapter (scan_line g line) = Some c))
     \<and> vol_title (books (scan_line g line) ! v) = vol_title (books g ! v)
     \<and> length (books (scan_line g line)) = length (books g)
     \<and> (\<forall>i. i \<noteq> v \<longrightarrow> books (scan_line g line) ! i = books g ! i)
     \<and> current_volume (scan_line g line) = Some v
     \<and> md_title (scan_line g line) = md_title g
     \<and> md_author (scan_line g line) = md_author g
     \<and> md_description (scan_line g line) = md_description g"
proof -
  have l: "parse_loop False g (raw # rest) = parse_loop False (scan_line g line) rest"
    using assms(3,4) parse_loop_scanning_step [of raw g rest] by simp
  have r: "(if strip line \<noteq> [] \<and> \<not> startswith line [32] \<and> \<not> startswith line [12288]
      then vol_chapters (books (scan_line g line) ! v) =
             vol_chapters (books g ! v) @ [\<lparr>ch_title = strip line, ch_content = []\<rparr>]
           \<and> current_chapter (scan_line g line) = Some (length (vol_chapters (books g ! v)))
      else length (vol_chapters (books (scan_line g line) ! v)) = length (vol_chapters (books g ! v))
           \<and> (case current_chapter g of
                None \<Rightarrow> scan_line g line = g
              | Some c \<Rightarrow>
                  vol_chapters (books (scan_line g line) ! v) =
                    (vol_chapters (books g ! v))
                      [c := (vol_chapters (books g ! v) ! c)
                         \<lparr>ch_content := ch_content (vol_chapters (books g ! v) ! c) @ [line]\<rparr>]
                  \<and> current_chapter (scan_line g line) = Some c))
     \<and> vol_title (books (scan_line g line) ! v) = vol_title (books g ! v)
     \<and> length (books (scan_line g line)) = length (books g)
     \<and> (\<forall>i. i \<noteq> v \<longrightarrow> books (scan_line g line) ! i = books g ! i)
     \<and> current_volume (scan_line g line) = Some v
     \<and> md_title (scan_line g line) = md_title g
     \<and> md_author (scan_line g line) = md_author g
     \<and> md_description (scan_line g line) = md_description g"
    using assms(1,2,5)
    by (auto simp add: scan_line_def Let_def append_chapter_def append_content_def
        split: option.splits)
  from l r show ?thesis by (rule conjI)
qed

text \<open>
  The rule at work: after a volume header, the line \<^verbatim>\<open>Ch 1\<close> starts the first chapter.
\<close>

theorem scanning_chapter_rule_witness:
  "parse_loop False
     (init\<lparr>books := [\<lparr>vol_title = ascii ''A'', vol_chapters = []\<rparr>], current_volume := Some 0\<rparr>)
     [ascii ''Ch 1'' @ [10]] =
   Inr (init\<lparr>books := [\<lparr>vol_title = ascii ''A'',
          vol_chapters = [\<lparr>ch_title = ascii ''Ch 1'', ch_content = []\<rparr>]\<rparr>],
        current_volume := Some 0, current_chapter := Some 0\<rparr>)"
proof -
  let ?g = "init\<lparr>books := [\<lparr>vol_title = ascii ''A'', vol_chapters = []\<rparr>],
    current_volume := Some 0\<rparr>"
  have h: "current_volume ?g = Some 0" "0 < length (books ?g)"
    "rstrip_nl (ascii ''Ch 1'' @ [10]) = ascii ''Ch 1''" "ascii ''Ch 1'' \<noteq> delimiter"
    "volume_match (ascii ''Ch 1'') = None"
    by code_simp+
  have "parse_loop False ?g [ascii ''Ch 1'' @ [10]] =
      parse_loop False (scan_line ?g (ascii ''Ch 1'')) []"
    using scanning_chapter_rule [OF h, of "[]"] by (rule conjunct1)
  also have "\<dots> = Inr (init\<lparr>books := [\<lparr>vol_title = ascii ''A'',
          vol_chapters = [\<lparr>ch_title = ascii ''Ch 1'', ch_content = []\<rparr>]\<rparr>],
        current_volume := Some 0, current_chapter := Some 0\<rparr>)"
    by code_simp
  finally show ?thesis .
qed

text \<open>
  The claim as it was stated fails on the delimiter line: it is no volume header, its
  trimmed form is not empty and it starts with no space, and read after a volume header
  in the scanning state it starts no chapter (lines 34 to 36 come first and switch to
  the metadata state).
\<close>

theorem delimiter_starts_no_chapter:
  "parse_txt init (volume_prefix @ ascii ''A'' @ [10] @ delimiter @ [10]) =
     Inr (init\<lparr>books := [\<lparr>vol_title = ascii ''A'', vol_chapters = []\<rparr>], current_volume := Some 0\<rparr>)
   \<and> parse_loop False
       (init\<lparr>books := [\<lparr>vol_title = ascii ''A'', vol_chapters = []\<rparr>], current_volume := Some 0\<rparr>)
       [delimiter @ [10]] =
     Inr (init\<lparr>books := [\<lparr>vol_title = ascii ''A'', vol_chapters = []\<rparr>], current_volume := Some 0\<rparr>)
   \<and> volume_match delimiter = None
   \<and> strip delimiter \<noteq> []
   \<and> \<not> startswith delimiter [32]
   \<and> \<not> startswith delimiter [12288]"
  by code_simp


text \<open>
  A line before any volume is dropped, and the loop ends normally.
\<close>

theorem body_line_dropped_witness:
  "scan_line init (ascii ''intro'') = init \<and>
   parse_loop False init [ascii ''intro'' @ [10]] = Inr init"
proof -
  have h1: "volume_match (ascii ''intro'') = None" by code_simp
  have h2: "current_volume init = None \<or>
      (current_chapter init = None \<and> \<not> chapter_header (ascii ''intro''))"
    by (simp add: init_def)
  have h3: "rstrip_nl (ascii ''intro'' @ [10]) = ascii ''intro'' \<and> ascii ''intro'' \<noteq> delimiter"
    by code_simp
  show ?thesis
    using body_line_dropped [OF h1 h2, of "ascii ''intro'' @ [10]" "[]"] h3
    by (simp del: parse_loop.simps) simp
qed


text \<open>
  Claim C6. A description marker on the last line of the input, read in the metadata
  state: \<^verbatim>\<open>lines[i+1]\<close> is out of range and the parse ends with Python's \<^verbatim>\<open>IndexError\<close>.
  The source has no guard, no parse error of its own and no default description.
\<close>

theorem description_marker_last_line:
  "parse_txt init (delimiter @ [10] @ description_marker) = Inl IndexError"
  by code_simp

subsection \<open>Counting headers\<close>


lemma sum_list_map_update:
  "v < length bs \<Longrightarrow>
   sum_list (map f (bs[v := x])) + f (bs ! v) = sum_list (map f bs) + (f x :: nat)"
proof (induction bs arbitrary: v)
  case Nil
  then show ?case by simp
next
  case (Cons b bs)
  then show ?case by (cases v) auto
qed

lemma scan_line_refs_ok: "refs_ok g \<Longrightarrow> refs_ok (scan_line g line)"
  by (auto simp add: refs_ok_def scan_line_def Let_def append_chapter_def append_content_def
      nth_append split: option.splits)

lemma scan_line_books_length:
  "length (books (scan_line g line)) =
     length (books g) + (if is_volume_header line then 1 else 0)"
  by (auto simp add: scan_line_def Let_def append_chapter_def append_content_def
      is_volume_header_def split: option.splits)

lemma scan_line_current_volume:
  "current_volume (scan_line g line) = None \<longleftrightarrow>
     current_volume g = None \<and> \<not> is_volume_header line"
  by (auto simp add: scan_line_def Let_def is_volume_header_def split: option.splits)

lemma scan_line_total_chapters:
  assumes "refs_ok g"
  shows "total_chapters (books (scan_line g line)) =
     total_chapters (books g) +
       (if current_volume g \<noteq> None \<and> is_chapter_header line then 1 else 0)"
proof (cases "volume_match line")
  case (Some t)
  then show ?thesis
    by (simp add: scan_line_def total_chapters_def is_chapter_header_def)
next
  case None
  show ?thesis
  proof (cases "current_volume g")
    case nv: None
    then show ?thesis using None by (simp add: scan_line_def)
  next
    case (Some v)
    then have v: "v < length (books g)" using assms by (simp add: refs_ok_def)
    show ?thesis
    proof (cases "chapter_header line")
      case True
      then show ?thesis
        using None Some
          sum_list_map_update [OF v, of "\<lambda>v. length (vol_chapters v)"
            "(books g ! v)\<lparr>vol_chapters := vol_chapters (books g ! v) @
               [\<lparr>ch_title = strip line, ch_content = []\<rparr>]\<rparr>"]
        by (simp add: scan_line_def Let_def chapter_header_def is_chapter_header_def
            total_chapters_def append_chapter_def)
    next
      case False
      show ?thesis
      proof (cases "current_chapter g")
        case nc: None
        then show ?thesis
          using None Some False
          by (auto simp add: scan_line_def Let_def chapter_header_def is_chapter_header_def)
      next
        case (Some c)
        then show ?thesis
          using None \<open>current_volume g = Some v\<close> False
            sum_list_map_update [OF v, of "\<lambda>v. length (vol_chapters v)"
              "(books g ! v)\<lparr>vol_chapters := (vol_chapters (books g ! v))
                 [c := (vol_chapters (books g ! v) ! c)
                    \<lparr>ch_content := ch_content (vol_chapters (books g ! v) ! c) @ [line]\<rparr>]\<rparr>"]
          by (auto simp add: scan_line_def Let_def chapter_header_def is_chapter_header_def
              total_chapters_def append_content_def)
      qed
    qed
  qed
qed

lemma list_all_update_cases:
  "list_all P bs \<Longrightarrow> (v < length bs \<Longrightarrow> P x) \<Longrightarrow> list_all P (bs[v := x])"
  by (induction bs arbitrary: v) (auto split: nat.splits)

lemma titles_append_chapter:
  assumes "titles_nonempty bs" and "ch_title ch \<noteq> []"
  shows "titles_nonempty (append_chapter v ch bs)"
  unfolding titles_nonempty_def append_chapter_def
proof (rule list_all_update_cases)
  show "list_all (\<lambda>v. list_all (\<lambda>c. ch_title c \<noteq> []) (vol_chapters v)) bs"
    using assms(1) by (simp add: titles_nonempty_def)
next
  assume "v < length bs"
  then have "list_all (\<lambda>c. ch_title c \<noteq> []) (vol_chapters (bs ! v))"
    using assms(1) by (simp add: titles_nonempty_def list_all_length)
  then show "list_all (\<lambda>c. ch_title c \<noteq> [])
      (vol_chapters ((bs ! v)\<lparr>vol_chapters := vol_chapters (bs ! v) @ [ch]\<rparr>))"
    using assms(2) by simp
qed

lemma titles_append_content:
  assumes "titles_nonempty bs"
  shows "titles_nonempty (append_content v c line bs)"
  unfolding titles_nonempty_def append_content_def
proof (rule list_all_update_cases)
  show "list_all (\<lambda>v. list_all (\<lambda>c. ch_title c \<noteq> []) (vol_chapters v)) bs"
    using assms(1) by (simp add: titles_nonempty_def)
next
  assume "v < length bs"
  then have a: "list_all (\<lambda>c. ch_title c \<noteq> []) (vol_chapters (bs ! v))"
    using assms(1) by (simp add: titles_nonempty_def list_all_length)
  have "list_all (\<lambda>c. ch_title c \<noteq> [])
      ((vol_chapters (bs ! v))[c := (vol_chapters (bs ! v) ! c)
         \<lparr>ch_content := ch_content (vol_chapters (bs ! v) ! c) @ [line]\<rparr>])"
  proof (rule list_all_update_cases [OF a])
    assume "c < length (vol_chapters (bs ! v))"
    then show "ch_title ((vol_chapters (bs ! v) ! c)
        \<lparr>ch_content := ch_content (vol_chapters (bs ! v) ! c) @ [line]\<rparr>) \<noteq> []"
      using a by (simp add: list_all_length)
  qed
  then show "list_all (\<lambda>c. ch_title c \<noteq> [])
      (vol_chapters ((bs ! v)\<lparr>vol_chapters :=
         (vol_chapters (bs ! v))[c := (vol_chapters (bs ! v) ! c)
           \<lparr>ch_content := ch_content (vol_chapters (bs ! v) ! c) @ [line]\<rparr>]\<rparr>))"
    by simp
qed

lemma titles_append_volume:
  "titles_nonempty bs \<Longrightarrow> titles_nonempty (bs @ [\<lparr>vol_title = t, vol_chapters = []\<rparr>])"
  by (simp add: titles_nonempty_def)

lemma scan_line_titles_nonempty:
  assumes "titles_nonempty (books g)"
  shows "titles_nonempty (books (scan_line g line))"
  using assms
  by (simp add: scan_line_def Let_def titles_append_volume titles_append_content
      titles_append_chapter split: option.splits)

lemma refs_ok_cong:
  "books g1 = books g \<Longrightarrow> current_volume g1 = current_volume g \<Longrightarrow>
   current_chapter g1 = current_chapter g \<Longrightarrow> refs_ok g1 = refs_ok g"
  by (auto simp add: refs_ok_def split: option.splits)

lemma parse_loop_step:
  assumes "parse_loop ms g (raw # rest) = Inr g'"
  shows "\<exists>ms' g1.
     parse_loop ms' g1 rest = Inr g' \<and>
     ((scanned ms (raw # rest) = scanned ms' rest \<and> books g1 = books g \<and>
        current_volume g1 = current_volume g \<and> current_chapter g1 = current_chapter g \<and>
        manifest g1 = manifest g \<and> spine g1 = spine g)
      \<or> (scanned ms (raw # rest) = rstrip_nl raw # scanned ms' rest \<and>
        g1 = scan_line g (rstrip_nl raw)))"
proof (cases "rstrip_nl raw = delimiter")
  case True
  then have "parse_loop True g rest = Inr g'" "scanned ms (raw # rest) = scanned True rest"
    using assms by (simp_all add: Let_def)
  then show ?thesis by blast
next
  case nd: False
  show ?thesis
  proof (cases ms)
    case False
    then have "parse_loop False (scan_line g (rstrip_nl raw)) rest = Inr g'"
      "scanned ms (raw # rest) = rstrip_nl raw # scanned False rest"
      using assms nd by (simp_all add: Let_def)
    then show ?thesis by blast
  next
    case True
    show ?thesis
    proof (cases "startswith (rstrip_nl raw) title_marker")
      case t: True
      then have "parse_loop True (g\<lparr>md_title := slice_4_m1 (rstrip_nl raw)\<rparr>) rest = Inr g'"
        "scanned ms (raw # rest) = scanned True rest"
        using assms nd True by (simp_all add: Let_def)
      then show ?thesis
        by (intro exI [of _ True] exI [of _ "g\<lparr>md_title := slice_4_m1 (rstrip_nl raw)\<rparr>"]) simp
    next
      case nt: False
      show ?thesis
      proof (cases "startswith (rstrip_nl raw) author_marker")
        case a: True
        then have "parse_loop True (g\<lparr>md_author := slice_4_m1 (rstrip_nl raw)\<rparr>) rest = Inr g'"
          "scanned ms (raw # rest) = scanned True rest"
          using assms nd True nt by (simp_all add: Let_def)
        then show ?thesis
          by (intro exI [of _ True] exI [of _ "g\<lparr>md_author := slice_4_m1 (rstrip_nl raw)\<rparr>"]) simp
      next
        case na: False
        show ?thesis
        proof (cases "startswith (rstrip_nl raw) description_marker")
          case d: True
          then obtain nxt tl where r: "rest = nxt # tl"
            using assms nd True nt na by (cases rest) (simp_all add: Let_def)
          then have "parse_loop False (g\<lparr>md_description := strip nxt\<rparr>) rest = Inr g'"
            "scanned ms (raw # rest) = scanned False rest"
            using assms nd True nt na d by (simp_all add: Let_def)
          then show ?thesis
            by (intro exI [of _ False] exI [of _ "g\<lparr>md_description := strip nxt\<rparr>"]) simp
        next
          case False
          then have "parse_loop True g rest = Inr g'" "scanned ms (raw # rest) = scanned True rest"
            using assms nd True nt na by (simp_all add: Let_def)
          then show ?thesis by blast
        qed
      qed
    qed
  qed
qed

lemma parse_loop_counts:
  assumes "parse_loop ms g ls = Inr g'" and "refs_ok g"
  shows "refs_ok g'
     \<and> length (books g') = length (books g) + length (filter is_volume_header (scanned ms ls))
     \<and> total_chapters (books g') = total_chapters (books g) +
         length (filter is_chapter_header
           (if current_volume g = None
            then dropWhile (\<lambda>l. \<not> is_volume_header l) (scanned ms ls)
            else scanned ms ls))
     \<and> (if titles_nonempty (books g) then titles_nonempty (books g') else True)"
  using assms
proof (induction ls arbitrary: ms g)
  case Nil
  then show ?case by simp
next
  case (Cons raw rest)
  obtain ms' g1 where p: "parse_loop ms' g1 rest = Inr g'"
    and alt: "(scanned ms (raw # rest) = scanned ms' rest \<and> books g1 = books g \<and>
        current_volume g1 = current_volume g \<and> current_chapter g1 = current_chapter g \<and>
        manifest g1 = manifest g \<and> spine g1 = spine g)
      \<or> (scanned ms (raw # rest) = rstrip_nl raw # scanned ms' rest \<and>
        g1 = scan_line g (rstrip_nl raw))"
    using parse_loop_step [OF Cons.prems(1)] by blast
  from alt show ?case
  proof
    assume a: "scanned ms (raw # rest) = scanned ms' rest \<and> books g1 = books g \<and>
        current_volume g1 = current_volume g \<and> current_chapter g1 = current_chapter g \<and>
        manifest g1 = manifest g \<and> spine g1 = spine g"
    then have r: "refs_ok g1" using Cons.prems(2) refs_ok_cong [of g1 g] by simp
    show ?thesis
      using Cons.IH [OF p r] a by (simp del: scanned.simps)
  next
    assume b: "scanned ms (raw # rest) = rstrip_nl raw # scanned ms' rest \<and>
        g1 = scan_line g (rstrip_nl raw)"
    let ?line = "rstrip_nl raw"
    have r: "refs_ok g1" using b Cons.prems(2) by (simp add: scan_line_refs_ok)
    have vh: "is_volume_header ?line \<Longrightarrow> \<not> is_chapter_header ?line"
      by (simp add: is_volume_header_def is_chapter_header_def)
    show ?thesis
      using Cons.IH [OF p r] b scan_line_books_length [of g ?line]
        scan_line_total_chapters [OF Cons.prems(2), of ?line]
        scan_line_current_volume [of g ?line]
        scan_line_titles_nonempty [of g ?line] vh
      by (simp del: scanned.simps split: if_splits)
  qed
qed


lemma refs_ok_init: "refs_ok init"
  by (simp add: refs_ok_def init_def)

text \<open>
  Claim C7, as the code has it. When the parse does not abort, every chapter has a
  non-empty title; the number of volumes is the number of lines that match the volume
  pattern among the lines read in the scanning state (the delimiter and the lines of a
  metadata block are not read there); and the number of chapters, over all volumes, is
  the number of chapter-header lines read in the scanning state after the first volume
  header. Each chapter is an element of the chapter list of one volume of the tree, so
  the sum over the volumes counts every chapter once.
\<close>

theorem parse_header_counts:
  assumes "parse_txt init txt = Inr g'"
  shows "titles_nonempty (books g')
     \<and> length (books g') =
         length (filter is_volume_header (scanned False (readlines (universal_newlines txt))))
     \<and> total_chapters (books g') =
         length (filter is_chapter_header
           (dropWhile (\<lambda>l. \<not> is_volume_header l)
              (scanned False (readlines (universal_newlines txt)))))"
proof -
  have p: "parse_loop False init (readlines (universal_newlines txt)) = Inr g'"
    using assms by (simp add: parse_txt_def)
  have i: "books init = []" "current_volume init = None"
    by (simp_all add: init_def)
  show ?thesis
    using parse_loop_counts [OF p refs_ok_init] i
    by (simp add: titles_nonempty_def total_chapters_def)
qed

text \<open>
  An input with a volume header, a chapter header and an indented line: one volume and
  one chapter are counted.
\<close>

theorem parse_header_counts_witness:
  "length (filter is_volume_header (scanned False (readlines (universal_newlines
      (volume_prefix @ ascii ''A'' @ [10] @ ascii ''Ch'' @ [10, 32] @ ascii ''body''))))) = 1
   \<and> length (filter is_chapter_header (dropWhile (\<lambda>l. \<not> is_volume_header l)
      (scanned False (readlines (universal_newlines
        (volume_prefix @ ascii ''A'' @ [10] @ ascii ''Ch'' @ [10, 32] @ ascii ''body'')))))) = 1"
proof -
  have h: "parse_txt init (volume_prefix @ ascii ''A'' @ [10] @ ascii ''Ch'' @ [10, 32] @ ascii ''body'')
     = Inr (init\<lparr>books := [\<lparr>vol_title = ascii ''A'',
          vol_chapters = [\<lparr>ch_title = ascii ''Ch'', ch_content = [[32] @ ascii ''body'']\<rparr>]\<rparr>],
        current_volume := Some 0, current_chapter := Some 0\<rparr>)"
    by code_simp
  show ?thesis
    using parse_header_counts [OF h] by (simp add: total_chapters_def)
qed

text \<open>
  The claim as it was stated fails on the input of two lines, the delimiter and a volume
  header: the parse returns the initial object, with no volume, and one line of the
  input matches the volume pattern.
\<close>

theorem header_in_metadata_block_not_counted:
  "parse_txt init (delimiter @ [10] @ volume_prefix @ ascii ''A'') = Inr init
   \<and> books init = []
   \<and> filter is_volume_header
        (map rstrip_nl (readlines (universal_newlines (delimiter @ [10] @ volume_prefix @ ascii ''A''))))
      = [volume_prefix @ ascii ''A'']"
  by code_simp

section \<open>Properties of the inline transformer\<close>

lemma sep_not_digit: "is_sep c \<Longrightarrow> \<not> is_digit c"
  by (auto simp add: is_sep_def is_digit_def)

lemma bracket_not_digit: "\<not> is_digit 93"
  by (simp add: is_digit_def)

lemma bracket_not_sep: "\<not> is_sep 93"
  by (simp add: is_sep_def)

lemma colon_not_digit: "is_digit c \<Longrightarrow> c \<noteq> 65306"
  by (auto simp add: is_digit_def)

lemma replace_colon_id: "65306 \<notin> set s \<Longrightarrow> replace_colon s = s"
  by (induction s) (auto simp add: replace_colon_def)

lemma replace_colon_append: "replace_colon (a @ b) = replace_colon a @ replace_colon b"
  by (simp add: replace_colon_def)

lemma replace_colon_keeps: "c \<noteq> 58 \<Longrightarrow> c \<notin> set s \<Longrightarrow> c \<notin> set (replace_colon s)"
  by (induction s) (auto simp add: replace_colon_def)

lemma digits_no_colon: "list_all is_digit s \<Longrightarrow> 65306 \<notin> set s"
  using colon_not_digit by (induction s) auto

lemma seps_no_colon: "list_all is_sep s \<Longrightarrow> 65306 \<notin> set s"
  by (induction s) (auto simp add: is_sep_def)

lemma ci_no_colon: "ci_i c \<or> ci_m c \<or> ci_g c \<Longrightarrow> c \<noteq> 65306"
  by (auto simp add: ci_i_def ci_m_def ci_g_def)

lemma open_at_iff:
  "open_at s \<longleftrightarrow> (\<exists>i m g r. s = [91, i, m, g, 61] @ r \<and> ci_i i \<and> ci_m m \<and> ci_g g)"
  by (cases s rule: open_at.cases) auto

lemma close_at_iff:
  "close_at s \<longleftrightarrow> (\<exists>i m g r. s = [91, 47, i, m, g, 93] @ r \<and> ci_i i \<and> ci_m m \<and> ci_g g)"
  by (cases s rule: close_at.cases) auto

lemma close_at_extend: "close_at u \<Longrightarrow> close_at (u @ v)"
  by (auto simp add: close_at_iff)

lemma close_at_cut: "u \<noteq> [] \<Longrightarrow> close_at (u @ 91 # r) \<Longrightarrow> close_at u"
  by (cases u rule: close_at.cases) (auto simp add: close_at_iff ci_i_def ci_m_def ci_g_def)

lemma find_close_complete:
  assumes "10 \<notin> set t" and "\<not> contains_close t" and "ci_i i" "ci_m m" "ci_g g"
  shows "find_close (t @ [91, 47, i, m, g, 93] @ post) = Some t"
  using assms(1,2)
proof (induction t)
  case Nil
  then show ?case using assms(3,4,5) by simp
next
  case (Cons c t)
  have "\<not> close_at ((c # t) @ 91 # [47, i, m, g, 93] @ post)"
    using Cons.prems(2) close_at_cut [of "c # t"] by auto
  then show ?case using Cons by simp
qed

lemma find_close_sound:
  "find_close r = Some t \<Longrightarrow>
   \<exists>i m g post. r = t @ [91, 47, i, m, g, 93] @ post \<and> ci_i i \<and> ci_m m \<and> ci_g g
     \<and> 10 \<notin> set t \<and> \<not> contains_close t"
proof (induction r arbitrary: t)
  case Nil
  then show ?case by simp
next
  case (Cons c cs)
  show ?case
  proof (cases "close_at (c # cs)")
    case True
    then have "t = []" using Cons.prems by simp
    then show ?thesis using True by (auto simp add: close_at_iff)
  next
    case False
    then obtain t' where f: "find_close cs = Some t'" and t: "t = c # t'" and c: "c \<noteq> 10"
      using Cons.prems by (auto split: if_splits option.splits)
    obtain i m g post where r: "cs = t' @ [91, 47, i, m, g, 93] @ post"
      and ci: "ci_i i" "ci_m m" "ci_g g" and n: "10 \<notin> set t'" "\<not> contains_close t'"
      using Cons.IH [OF f] by blast
    have "\<not> close_at (c # t')"
      using False r close_at_extend [of "c # t'" "[91, 47, i, m, g, 93] @ post"] by auto
    then show ?thesis using r ci n t c by auto
  qed
qed

lemma run_split:
  "list_all P xs \<Longrightarrow> ys = [] \<or> \<not> P (hd ys) \<Longrightarrow>
   takeWhile P (xs @ ys) = xs \<and> dropWhile P (xs @ ys) = ys"
  by (induction xs) (auto simp add: takeWhile_eq_Nil_iff dropWhile_eq_self_iff)

lemma match_sep:
  assumes "ci_i i1" "ci_m m1" "ci_g g1"
    and "w \<noteq> []" "list_all is_digit w" and "sp \<noteq> []" "list_all is_sep sp"
    and "h \<noteq> []" "list_all is_digit h" and "find_close r = Some t"
  shows "match_img ([91, i1, m1, g1, 61] @ w @ sp @ h @ [93] @ r) =
     Some (w, h, t, 5 + length w + length sp + length h + 1 + length t + 6)"
proof -
  let ?r3 = "[93] @ r"
  let ?r2 = "h @ ?r3"
  let ?r1 = "sp @ ?r2"
  have "is_sep (hd sp)" using assms(6,7) by (cases sp) simp_all
  then have a: "takeWhile is_digit (w @ ?r1) = w \<and> dropWhile is_digit (w @ ?r1) = ?r1"
    using assms(5,6) sep_not_digit by (intro run_split) (simp_all add: hd_append)
  have "is_digit (hd h)" using assms(8,9) by (cases h) simp_all
  then have b: "takeWhile is_sep (sp @ ?r2) = sp \<and> dropWhile is_sep (sp @ ?r2) = ?r2"
    using assms(7,8) sep_not_digit by (intro run_split) (auto simp add: hd_append)
  have c: "takeWhile is_digit (h @ ?r3) = h \<and> dropWhile is_digit (h @ ?r3) = ?r3"
    using assms(9) bracket_not_digit by (intro run_split) simp_all
  show ?thesis
    using assms(1,2,3,4,6,8,10) a b c by (simp add: match_img_def)
qed

lemma match_nosep:
  assumes "ci_i i1" "ci_m m1" "ci_g g1"
    and "2 \<le> length d" "list_all is_digit d" and "find_close r = Some t"
  shows "match_img ([91, i1, m1, g1, 61] @ d @ [93] @ r) =
     Some (butlast d, [last d], t, 5 + length d + 1 + length t + 6)"
proof -
  let ?r1 = "[93] @ r"
  have a: "takeWhile is_digit (d @ ?r1) = d \<and> dropWhile is_digit (d @ ?r1) = ?r1"
    using assms(5) bracket_not_digit by (intro run_split) simp_all
  have d: "d \<noteq> []" using assms(4) by auto
  show ?thesis
    using assms(1,2,3,4,6) a d bracket_not_sep by (simp add: match_img_def)
qed

lemma match_img_complete:
  assumes "tag_ok tg"
  shows "match_img (tag_text tg @ post) =
     Some (width tg, height tg, src_text tg, length (tag_text tg))"
proof -
  let ?w = "width tg" and ?sp = "separators tg" and ?h = "height tg" and ?t = "src_text tg"
  let ?cl = "[91, 47, close_i tg, close_m tg, close_g tg, 93]"
  have ok: "ci_i (open_i tg)" "ci_m (open_m tg)" "ci_g (open_g tg)"
    "ci_i (close_i tg)" "ci_m (close_m tg)" "ci_g (close_g tg)"
    "?w \<noteq> []" "list_all is_digit ?w" "list_all is_sep ?sp"
    "?h \<noteq> []" "list_all is_digit ?h"
    "10 \<notin> set ?t" "\<not> contains_close ?t"
    using assms by (simp_all add: tag_ok_def)
  have f: "find_close (?t @ ?cl @ post) = Some ?t"
    using find_close_complete [OF ok(12,13) ok(4,5,6)] .
  show ?thesis
  proof (cases "?sp = []")
    case False
    have s: "tag_text tg @ post =
        [91, open_i tg, open_m tg, open_g tg, 61] @ ?w @ ?sp @ ?h @ [93] @ (?t @ ?cl @ post)"
      by (simp add: tag_text_def)
    have l: "length (tag_text tg) =
        5 + length ?w + length ?sp + length ?h + 1 + length ?t + 6"
      by (simp add: tag_text_def)
    show ?thesis
      unfolding s l using match_sep [OF ok(1,2,3) ok(7,8) False ok(9,10,11) f] .
  next
    case True
    then have one: "length ?h = 1" using assms by (simp add: tag_ok_def)
    then obtain x where h: "?h = [x]" by (cases ?h) auto
    have s: "tag_text tg @ post =
        [91, open_i tg, open_m tg, open_g tg, 61] @ (?w @ ?h) @ [93] @ (?t @ ?cl @ post)"
      using True by (simp add: tag_text_def)
    have l: "length (tag_text tg) = 5 + length (?w @ ?h) + 1 + length ?t + 6"
      using True by (simp add: tag_text_def)
    have bl: "butlast (?w @ ?h) = ?w" "[last (?w @ ?h)] = ?h" using h by simp_all
    have two: "2 \<le> length (?w @ ?h)" using ok(7) one by (cases ?w) simp_all
    have dg: "list_all is_digit (?w @ ?h)" using ok(8,11) by simp
    show ?thesis
      unfolding s l using match_nosep [OF ok(1,2,3) two dg f] unfolding bl .
  qed
qed

lemma list_all_takeWhile: "list_all P (takeWhile P xs)"
  by (induction xs) simp_all

lemma take_1_eq: "take 1 r = [x] \<Longrightarrow> r = x # drop 1 r"
  by (cases r) simp_all

lemma match_img_sound:
  assumes "match_img s = Some (w, h, t, n)"
  shows "\<exists>tg post. tag_ok tg \<and> s = tag_text tg @ post \<and> w = width tg \<and> h = height tg
     \<and> t = src_text tg \<and> n = length (tag_text tg)"
proof -
  have o: "open_at s" using assms by (simp add: match_img_def split: if_splits)
  then obtain i1 m1 g1 r where s: "s = [91, i1, m1, g1, 61] @ r"
    and ci: "ci_i i1" "ci_m m1" "ci_g g1"
    by (auto simp add: open_at_iff)
  define d1 where "d1 = takeWhile is_digit r"
  define r1 where "r1 = dropWhile is_digit r"
  define sp where "sp = takeWhile is_sep r1"
  define r2 where "r2 = dropWhile is_sep r1"
  define d2 where "d2 = takeWhile is_digit r2"
  define r3 where "r3 = dropWhile is_digit r2"
  have r: "r = d1 @ r1" "r1 = sp @ r2" "r2 = d2 @ r3"
    by (simp_all add: d1_def r1_def sp_def r2_def d2_def r3_def)
  have dg: "list_all is_digit d1" "list_all is_sep sp" "list_all is_digit d2"
    by (simp_all add: d1_def sp_def d2_def list_all_takeWhile)
  have dr: "drop 5 s = r" using s by simp
  have m: "(if d1 = [] then None
      else if sp \<noteq> [] then
        (if d2 \<noteq> [] \<and> take 1 r3 = [93] then
           (case find_close (drop 1 r3) of
              None \<Rightarrow> None
            | Some t \<Rightarrow> Some (d1, d2, t, 5 + length d1 + length sp + length d2 + 1 + length t + 6))
         else None)
      else
        (if 2 \<le> length d1 \<and> take 1 r1 = [93] then
           (case find_close (drop 1 r1) of
              None \<Rightarrow> None
            | Some t \<Rightarrow> Some (butlast d1, [last d1], t, 5 + length d1 + 1 + length t + 6))
         else None)) = Some (w, h, t, n)"
    using assms o unfolding match_img_def dr Let_def d1_def r1_def sp_def r2_def d2_def r3_def
    by simp
  have d1: "d1 \<noteq> []" using m by (auto split: if_splits)
  show ?thesis
  proof (cases "sp = []")
    case False
    then have c: "d2 \<noteq> []" "take 1 r3 = [93]" and f: "find_close (drop 1 r3) = Some t"
      and e: "w = d1" "h = d2" "n = 5 + length d1 + length sp + length d2 + 1 + length t + 6"
      using m d1 by (auto split: if_splits option.splits)
    obtain i2 m2 g2 post where p: "drop 1 r3 = t @ [91, 47, i2, m2, g2, 93] @ post"
      and ci2: "ci_i i2" "ci_m m2" "ci_g g2" and nt: "10 \<notin> set t" "\<not> contains_close t"
      using find_close_sound [OF f] by blast
    have r3: "r3 = 93 # t @ [91, 47, i2, m2, g2, 93] @ post"
      using take_1_eq [OF c(2)] p by simp
    let ?tg = "\<lparr>open_i = i1, open_m = m1, open_g = g1, width = d1, separators = sp,
      height = d2, src_text = t, close_i = i2, close_m = m2, close_g = g2\<rparr>"
    have "tag_ok ?tg" using ci ci2 d1 dg c(1) False nt by (simp add: tag_ok_def)
    moreover have "s = tag_text ?tg @ post"
      using s r r3 by (simp add: tag_text_def)
    moreover have "n = length (tag_text ?tg)" using e(3) by (simp add: tag_text_def)
    ultimately show ?thesis using e(1,2) by (intro exI [of _ ?tg] exI [of _ post]) simp
  next
    case True
    then have c: "2 \<le> length d1" "take 1 r1 = [93]" and f: "find_close (drop 1 r1) = Some t"
      and e: "w = butlast d1" "h = [last d1]" "n = 5 + length d1 + 1 + length t + 6"
      using m d1 by (auto split: if_splits option.splits)
    obtain i2 m2 g2 post where p: "drop 1 r1 = t @ [91, 47, i2, m2, g2, 93] @ post"
      and ci2: "ci_i i2" "ci_m m2" "ci_g g2" and nt: "10 \<notin> set t" "\<not> contains_close t"
      using find_close_sound [OF f] by blast
    have r1: "r1 = 93 # t @ [91, 47, i2, m2, g2, 93] @ post"
      using take_1_eq [OF c(2)] p by simp
    let ?tg = "\<lparr>open_i = i1, open_m = m1, open_g = g1, width = butlast d1, separators = [],
      height = [last d1], src_text = t, close_i = i2, close_m = m2, close_g = g2\<rparr>"
    have b: "butlast d1 \<noteq> []" using c(1) by (cases d1 rule: rev_cases) auto
    have "list_all is_digit (butlast d1)" "is_digit (last d1)"
      using dg(1) d1 by (auto simp add: list_all_iff dest: in_set_butlastD)
    then have "tag_ok ?tg" using ci ci2 b nt by (simp add: tag_ok_def)
    moreover have "s = tag_text ?tg @ post"
      using s r(1) r1 d1 by (simp add: tag_text_def)
    moreover have "n = length (tag_text ?tg)" using e(3) d1 by (simp add: tag_text_def)
    ultimately show ?thesis using e(1,2) by (intro exI [of _ ?tg] exI [of _ post]) simp
  qed
qed

lemma img_sub_at_tag:
  assumes "tag_ok tg"
  shows "img_sub (tag_text tg @ post) =
     img_element (src_text tg) (width tg) (height tg) @ img_sub post"
proof -
  obtain cs where t: "tag_text tg = 91 # cs" by (simp add: tag_text_def)
  have "match_img (91 # cs @ post) = Some (width tg, height tg, src_text tg, Suc (length cs))"
    using match_img_complete [OF assms, of post] t by simp
  then show ?thesis using t by simp
qed

lemma img_sub_no_tag:
  assumes "\<forall>tg post. tag_ok tg \<longrightarrow> c # cs \<noteq> tag_text tg @ post"
  shows "img_sub (c # cs) = c # img_sub cs"
proof (cases "match_img (c # cs)")
  case None
  then show ?thesis by simp
next
  case (Some m)
  obtain w h t n where "m = (w, h, t, n)" by (cases m) auto
  then have "\<exists>tg post. tag_ok tg \<and> c # cs = tag_text tg @ post"
    using match_img_sound [of "c # cs" w h t n] Some by blast
  then show ?thesis using assms by blast
qed

lemma close_at_replace_colon: "close_at (replace_colon s) = close_at s"
  by (cases s rule: close_at.cases)
     (auto simp add: replace_colon_def ci_i_def ci_m_def ci_g_def)

lemma contains_close_replace_colon: "contains_close (replace_colon s) = contains_close s"
proof (induction s)
  case Nil
  then show ?case by (simp add: replace_colon_def)
next
  case (Cons c s)
  have "replace_colon (c # s) = (if c = 65306 then 58 else c) # replace_colon s"
    by (simp add: replace_colon_def)
  then show ?case
    using Cons close_at_replace_colon [of "c # s"] by (simp del: close_at.simps)
qed

lemma tag_ok_replace_colon:
  assumes "tag_ok tg"
  shows "tag_ok (tg\<lparr>src_text := replace_colon (src_text tg)\<rparr>)
     \<and> replace_colon (tag_text tg) = tag_text (tg\<lparr>src_text := replace_colon (src_text tg)\<rparr>)"
proof -
  have ok: "ci_i (open_i tg)" "ci_m (open_m tg)" "ci_g (open_g tg)"
    "ci_i (close_i tg)" "ci_m (close_m tg)" "ci_g (close_g tg)"
    "list_all is_digit (width tg)" "list_all is_sep (separators tg)"
    "list_all is_digit (height tg)" "10 \<notin> set (src_text tg)"
    using assms by (simp_all add: tag_ok_def)
  have n: "10 \<notin> set (replace_colon (src_text tg))"
    using ok(10) by (simp add: replace_colon_keeps)
  have a: "tag_ok (tg\<lparr>src_text := replace_colon (src_text tg)\<rparr>)"
    using assms n by (simp add: tag_ok_def contains_close_replace_colon)
  have c1: "replace_colon [91, open_i tg, open_m tg, open_g tg, 61] =
      [91, open_i tg, open_m tg, open_g tg, 61]"
    using ok(1,2,3) ci_no_colon by (intro replace_colon_id) auto
  have c2: "replace_colon [91, 47, close_i tg, close_m tg, close_g tg, 93] =
      [91, 47, close_i tg, close_m tg, close_g tg, 93]"
    using ok(4,5,6) ci_no_colon by (intro replace_colon_id) auto
  have c3: "replace_colon (width tg) = width tg" "replace_colon (height tg) = height tg"
    "replace_colon (separators tg) = separators tg"
    using ok(7,8,9) digits_no_colon seps_no_colon by (simp_all add: replace_colon_id)
  have c4: "replace_colon [93] = [93]" by (simp add: replace_colon_def)
  have b: "replace_colon (tag_text tg) = tag_text (tg\<lparr>src_text := replace_colon (src_text tg)\<rparr>)"
    unfolding tag_text_def replace_colon_append c1 c2 c3 c4 by simp
  from a b show ?thesis by simp
qed

lemma process_images_at_tag:
  assumes "tag_ok tg"
  shows "process_images (tag_text tg @ post) =
     img_element (replace_colon (src_text tg)) (width tg) (height tg) @ process_images post"
  using tag_ok_replace_colon [OF assms]
    img_sub_at_tag [of "tg\<lparr>src_text := replace_colon (src_text tg)\<rparr>" "replace_colon post"]
  by (simp add: process_images_def replace_colon_append)

lemma tag_text_long: "12 \<le> length (tag_text tg)"
  by (simp add: tag_text_def)

text \<open>
  Claim C4, as the code has it. The transformer runs two passes: every U+FF1A is
  replaced by a colon, and the image tags of the result are rewritten from left to
  right. The second pass is fixed by three facts: the empty text stays empty; where a
  well-formed tag starts (any case of the letters, non-empty runs of digits as width
  and height, between them any run of separators, also the empty one, in which case the
  height is the one last digit, and a text that runs to the first closing tag without a
  line feed), the tag is replaced by the image element of its text, width and height,
  and the pass goes on behind the tag; where no well-formed tag starts, the code point
  is kept and the pass goes on behind it. On the whole transformer, a well-formed tag at
  the start is replaced by the image element of its text with the colons replaced. The
  three examples of the claim hold, and so does a text with U+FF1A and no tag.
\<close>

theorem process_images_rewrites:
  \<open>process_images s = img_sub (replace_colon s)
   \<and> replace_colon s = map (\<lambda>c. if c = 65306 then 58 else c) s
   \<and> img_sub [] = []
   \<and> (tag_ok tg \<longrightarrow>
        img_sub (tag_text tg @ post) =
          img_element (src_text tg) (width tg) (height tg) @ img_sub post)
   \<and> ((\<forall>tg' post'. tag_ok tg' \<longrightarrow> c # cs \<noteq> tag_text tg' @ post') \<longrightarrow>
        img_sub (c # cs) = c # img_sub cs)
   \<and> (tag_ok tg \<longrightarrow>
        process_images (tag_text tg @ post) =
          img_element (replace_colon (src_text tg)) (width tg) (height tg) @ process_images post)
   \<and> process_images (ascii ''[img=100,200]pic.png[/img]'') =
        ascii ''<img src="pic.png" width="100" height="200"/>''
   \<and> process_images (ascii ''[IMG=100 200]x[/img]'') =
        ascii ''<img src="x" width="100" height="200"/>''
   \<and> process_images [27809, 26377, 22270, 29255] = [27809, 26377, 22270, 29255]
   \<and> process_images [27809, 65306, 26377] = [27809, 58, 26377]\<close>
proof -
  have e1: \<open>process_images (ascii ''[img=100,200]pic.png[/img]'') =
      ascii ''<img src="pic.png" width="100" height="200"/>''\<close>
    by code_simp
  have e2: \<open>process_images (ascii ''[IMG=100 200]x[/img]'') =
      ascii ''<img src="x" width="100" height="200"/>''\<close>
    by code_simp
  have e3: "process_images [27809, 26377, 22270, 29255] = [27809, 26377, 22270, 29255]"
    by code_simp
  have e4: "process_images [27809, 65306, 26377] = [27809, 58, 26377]"
    by code_simp
  show ?thesis
    using img_sub_at_tag [of tg post] img_sub_no_tag [of c cs] process_images_at_tag [of tg post]
      e1 e2 e3 e4
    by (simp add: process_images_def replace_colon_def)
qed

text \<open>
  An upper-case tag with a space as separator, whose text holds \<^verbatim>\<open>[\<close> and U+FF1A, before a
  piece of plain text; and the text \<^verbatim>\<open>[img]\<close>, at whose start no tag begins.
\<close>

theorem process_images_rewrites_witness:
  \<open>process_images (ascii ''[IMG=100 200]a[b'' @ [65306] @ ascii ''[/img]!'') =
     ascii ''<img src="a[b:" width="100" height="200"/>!''
   \<and> img_sub (ascii ''[img]'') = 91 # img_sub (ascii ''img]'')\<close>
proof -
  let ?tg = "\<lparr>open_i = 73, open_m = 77, open_g = 71, width = ascii ''100'', separators = [32],
    height = ascii ''200'', src_text = ascii ''a[b'' @ [65306],
    close_i = 105, close_m = 109, close_g = 103\<rparr>"
  have ok: "tag_ok ?tg" by code_simp
  have no: "\<forall>tg' post'. tag_ok tg' \<longrightarrow> 91 # ascii ''img]'' \<noteq> tag_text tg' @ post'"
  proof (intro allI impI notI)
    fix tg' :: img_tag and post' :: ustr
    assume "91 # ascii ''img]'' = tag_text tg' @ post'"
    then have "length (91 # ascii ''img]'') = length (tag_text tg' @ post')" by simp
    then show False using tag_text_long [of tg'] by (simp add: ascii_def)
  qed
  note th = process_images_rewrites [of "[]" ?tg "ascii ''!''" 91 "ascii ''img]''"]
  have a: "process_images (tag_text ?tg @ ascii ''!'') =
      img_element (replace_colon (src_text ?tg)) (width ?tg) (height ?tg)
      @ process_images (ascii ''!'')"
    using th ok by blast
  have b: "img_sub (91 # ascii ''img]'') = 91 # img_sub (ascii ''img]'')"
    using th no by blast
  have t: "tag_text ?tg @ ascii ''!'' = ascii ''[IMG=100 200]a[b'' @ [65306] @ ascii ''[/img]!''"
    by code_simp
  have r: \<open>img_element (replace_colon (src_text ?tg)) (width ?tg) (height ?tg)
      @ process_images (ascii ''!'') = ascii ''<img src="a[b:" width="100" height="200"/>!''\<close>
    by code_simp
  have i: "ascii ''[img]'' = 91 # ascii ''img]''" by code_simp
  show ?thesis using a b unfolding t r i by simp
qed

text \<open>
  The claim as it was stated fails on a tag without any separator between the digits:
  the text holds no separator at all, and is rewritten all the same, with width 1 and
  height 2.
\<close>

theorem separator_not_required:
  \<open>process_images (ascii ''[img=12]x[/img]'') = ascii ''<img src="x" width="1" height="2"/>''
   \<and> filter is_sep (ascii ''[img=12]x[/img]'') = []\<close>
  by code_simp

section \<open>Properties of the content document generator\<close>


declare str_of_nat.simps [simp del]

lemma str_of_nat_digits: "c \<in> set (str_of_nat n) \<Longrightarrow> 48 \<le> c \<and> c \<le> 57"
proof (induction n arbitrary: c rule: str_of_nat.induct)
  case (1 n)
  show ?case
  proof (cases "n < 10")
    case True
    then show ?thesis using "1.prems" by (subst (asm) str_of_nat.simps) auto
  next
    case False
    then have "c \<in> set (str_of_nat (n div 10)) \<or> c = 48 + int (n mod 10)"
      using "1.prems" by (subst (asm) str_of_nat.simps) auto
    then show ?thesis using "1.IH" [OF False] by auto
  qed
qed

lemma split_dot_0_filename: "split_dot_0 (chapter_filename n m) = chapter_id n m"
proof -
  have "46 \<notin> set (chapter_id n m)"
    using str_of_nat_digits [of 46] by (auto simp add: chapter_id_def ascii_def)
  then have "takeWhile (\<lambda>c. c \<noteq> 46) (chapter_id n m @ ascii ''.xhtml'') = chapter_id n m"
    by (subst takeWhile_append2) (auto simp add: ascii_def)
  then show ?thesis
    by (simp add: split_dot_0_def chapter_filename_def chapter_id_def)
qed

lemma generate_volume_effect:
  "books (fst (generate_volume n m chs s)) = books (fst s)
   \<and> map item_id (manifest (fst (generate_volume n m chs s))) =
       map item_id (manifest (fst s)) @ map (\<lambda>(m, chapter). chapter_id n m) (enumerate m chs)
   \<and> map idref (spine (fst (generate_volume n m chs s))) =
       map idref (spine (fst s)) @ map (\<lambda>(m, chapter). chapter_id n m) (enumerate m chs)
   \<and> map doc_path (snd (generate_volume n m chs s)) =
       map doc_path (snd s) @
       map (\<lambda>(m, chapter). ascii ''epub/OEBPS/'' @ chapter_filename n m) (enumerate m chs)"
  by (induction chs arbitrary: m s) (simp_all add: Let_def split_dot_0_filename)

lemma generate_volumes_effect:
  "books (fst (generate_volumes n vs s)) = books (fst s)
   \<and> map item_id (manifest (fst (generate_volumes n vs s))) =
       map item_id (manifest (fst s)) @
       concat (map (\<lambda>(n, volume). map (\<lambda>(m, chapter). chapter_id n m)
                      (enumerate 1 (vol_chapters volume))) (enumerate n vs))
   \<and> map idref (spine (fst (generate_volumes n vs s))) =
       map idref (spine (fst s)) @
       concat (map (\<lambda>(n, volume). map (\<lambda>(m, chapter). chapter_id n m)
                      (enumerate 1 (vol_chapters volume))) (enumerate n vs))
   \<and> map doc_path (snd (generate_volumes n vs s)) =
       map doc_path (snd s) @
       concat (map (\<lambda>(n, volume). map (\<lambda>(m, chapter). ascii ''epub/OEBPS/'' @ chapter_filename n m)
                      (enumerate 1 (vol_chapters volume))) (enumerate n vs))"
  by (induction vs arbitrary: n s) (simp_all add: generate_volume_effect)

lemma length_chapter_ids: "length (chapter_ids bs) = total_chapters bs"
proof -
  have "\<And>n. length (concat (map (\<lambda>(n, volume). map (\<lambda>(m, chapter). chapter_id n m)
      (enumerate 1 (vol_chapters volume))) (enumerate n bs))) = total_chapters bs"
    by (induction bs) (simp_all add: total_chapters_def)
  then show ?thesis by (simp add: chapter_ids_def)
qed


lemma scan_line_manifest:
  "manifest (scan_line g line) = manifest g \<and> spine (scan_line g line) = spine g"
  by (simp add: scan_line_def Let_def split: option.splits)

lemma parse_loop_manifest:
  "parse_loop ms g ls = Inr g' \<Longrightarrow> manifest g' = manifest g \<and> spine g' = spine g"
proof (induction ls arbitrary: ms g)
  case Nil
  then show ?case by simp
next
  case (Cons raw rest)
  obtain ms' g1 where p: "parse_loop ms' g1 rest = Inr g'"
    and m: "manifest g1 = manifest g \<and> spine g1 = spine g"
    using parse_loop_step [OF Cons.prems] scan_line_manifest by metis
  show ?case using Cons.IH [OF p] m by simp
qed

lemma parse_txt_manifest:
  "parse_txt init txt = Inr g \<Longrightarrow> manifest g = [] \<and> spine g = []"
  using parse_loop_manifest [of False init] by (simp add: parse_txt_def init_def)

text \<open>
  Claim C2. For the book of every input that parses, \<^verbatim>\<open>generate_chapters\<close> leaves a spine
  whose idrefs are the manifest's ids, in the same order; both are the identifiers
  \<^verbatim>\<open>vol{N}_chap{M}\<close> of the chapters in book-traversal order, \<open>N\<close> and \<open>M\<close> counted from 1; and
  there is one manifest entry and one spine entry for each chapter.
\<close>

theorem spine_matches_manifest:
  assumes "parse_txt init txt = Inr g"
  shows "map idref (spine (fst (generate_chapters g))) =
           map item_id (manifest (fst (generate_chapters g)))
     \<and> map item_id (manifest (fst (generate_chapters g))) = chapter_ids (books g)
     \<and> length (manifest (fst (generate_chapters g))) = total_chapters (books g)
     \<and> length (spine (fst (generate_chapters g))) = total_chapters (books g)"
proof -
  have e: "manifest g = []" "spine g = []" using parse_txt_manifest [OF assms] by simp_all
  have m: "map item_id (manifest (fst (generate_chapters g))) = chapter_ids (books g)"
    using generate_volumes_effect [of 1 "books g" "(g, [])"] e
    by (simp add: generate_chapters_def chapter_ids_def)
  have s: "map idref (spine (fst (generate_chapters g))) = chapter_ids (books g)"
    using generate_volumes_effect [of 1 "books g" "(g, [])"] e
    by (simp add: generate_chapters_def chapter_ids_def)
  have "length (map item_id (manifest (fst (generate_chapters g)))) = total_chapters (books g)"
    "length (map idref (spine (fst (generate_chapters g)))) = total_chapters (books g)"
    unfolding m s by (simp_all add: length_chapter_ids)
  then have "length (manifest (fst (generate_chapters g))) = total_chapters (books g)"
    "length (spine (fst (generate_chapters g))) = total_chapters (books g)"
    by simp_all
  then show ?thesis using m s by simp
qed

text \<open>
  The book parsed from a volume header, a chapter header and an indented line has the
  single identifier \<^verbatim>\<open>vol1_chap1\<close> in manifest and spine.
\<close>

theorem spine_matches_manifest_witness:
  "map idref (spine (fst (generate_chapters
      (init\<lparr>books := [\<lparr>vol_title = ascii ''A'',
          vol_chapters = [\<lparr>ch_title = ascii ''Ch'', ch_content = [[32] @ ascii ''body'']\<rparr>]\<rparr>],
        current_volume := Some 0, current_chapter := Some 0\<rparr>)))) = [ascii ''vol1_chap1'']
   \<and> map item_id (manifest (fst (generate_chapters
      (init\<lparr>books := [\<lparr>vol_title = ascii ''A'',
          vol_chapters = [\<lparr>ch_title = ascii ''Ch'', ch_content = [[32] @ ascii ''body'']\<rparr>]\<rparr>],
        current_volume := Some 0, current_chapter := Some 0\<rparr>)))) = [ascii ''vol1_chap1'']"
proof -
  have h: "parse_txt init (volume_prefix @ ascii ''A'' @ [10] @ ascii ''Ch'' @ [10, 32] @ ascii ''body'')
     = Inr (init\<lparr>books := [\<lparr>vol_title = ascii ''A'',
          vol_chapters = [\<lparr>ch_title = ascii ''Ch'', ch_content = [[32] @ ascii ''body'']\<rparr>]\<rparr>],
        current_volume := Some 0, current_chapter := Some 0\<rparr>)"
    by code_simp
  have c: "chapter_ids [\<lparr>vol_title = ascii ''A'',
          vol_chapters = [\<lparr>ch_title = ascii ''Ch'', ch_content = [[32] @ ascii ''body'']\<rparr>]\<rparr>]
      = [ascii ''vol1_chap1'']"
    by code_simp
  show ?thesis
    using spine_matches_manifest [OF h] c by simp
qed

section \<open>Properties of the navigation generator\<close>


lemma toc_header_raises: "toc_header g = Inl (KeyError toc_header_key)"
  by (simp add: toc_header_def metadata_getitem_def toc_header_key_def)

text \<open>
  Claim C3. The claim is about the play orders that \<^verbatim>\<open>generate_toc\<close> assigns. On every
  generator object the call ends with \<^verbatim>\<open>KeyError\<close> while the header is formatted: the key
  looked up is \<^verbatim>\<open>'title'\<close> with its quotation marks, which the dictionary does not have.
  The loop that assigns the play orders is never reached and no file is written.
\<close>

theorem generate_toc_raises: "generate_toc g = Inl (KeyError toc_header_key)"
  by (simp add: generate_toc_def toc_header_raises)

text \<open>
  Claim C8. On the book of an input with one volume and no chapter, \<^verbatim>\<open>generate_toc\<close> ends
  with the same \<^verbatim>\<open>KeyError\<close>: no navigation point is emitted for the volume.
\<close>

theorem generate_toc_empty_volume:
  "parse_txt init (volume_prefix @ ascii ''A'') =
     Inr (init\<lparr>books := [\<lparr>vol_title = ascii ''A'', vol_chapters = []\<rparr>], current_volume := Some 0\<rparr>)
   \<and> generate_toc (init\<lparr>books := [\<lparr>vol_title = ascii ''A'', vol_chapters = []\<rparr>],
        current_volume := Some 0\<rparr>) = Inl (KeyError toc_header_key)"
proof -
  have "parse_txt init (volume_prefix @ ascii ''A'') =
     Inr (init\<lparr>books := [\<lparr>vol_title = ascii ''A'', vol_chapters = []\<rparr>], current_volume := Some 0\<rparr>)"
    by code_simp
  then show ?thesis by (simp add: generate_toc_def toc_header_raises)
qed

text \<open>
  What the loop of lines 143 to 160 computes when it is run on its own: the play orders
  are the numbers from the start value on, one for each volume and each chapter, in the
  order of the elements; and each volume's point refers to the first chapter file of the
  volume.
\<close>

lemma toc_chapters_orders:
  "concat (map play_orders (fst (toc_chapters k n m chs))) = [k..<k + length chs]
   \<and> snd (toc_chapters k n m chs) = k + length chs"
proof (induction chs arbitrary: k m)
  case Nil
  then show ?case by simp
next
  case (Cons c chs)
  have e: "k + length (c # chs) = Suc k + length chs" by simp
  have "[k..<k + length (c # chs)] = k # [Suc k..<k + length (c # chs)]"
    by (rule upt_conv_Cons) simp
  then have "[k..<k + length (c # chs)] = k # [Suc k..<Suc k + length chs]"
    unfolding e .
  then show ?case using Cons [of "Suc k" "Suc m"] by (simp add: Let_def del: upt_Suc)
qed

lemma toc_volumes_orders:
  "concat (map play_orders (toc_volumes k n vs)) = [k..<k + length vs + total_chapters vs]"
proof (induction vs arbitrary: k n)
  case Nil
  then show ?case by (simp add: total_chapters_def)
next
  case (Cons v vs)
  let ?c = "length (vol_chapters v)"
  have e: "k + length (v # vs) + total_chapters (v # vs) =
      (Suc k + ?c) + (length vs + total_chapters vs)"
    by (simp add: total_chapters_def)
  have "[k..<(Suc k + ?c) + (length vs + total_chapters vs)] =
      k # [Suc k..<(Suc k + ?c) + (length vs + total_chapters vs)]"
    by (rule upt_conv_Cons) simp
  also have "[Suc k..<(Suc k + ?c) + (length vs + total_chapters vs)] =
      [Suc k..<Suc k + ?c] @ [Suc k + ?c..<(Suc k + ?c) + (length vs + total_chapters vs)]"
    by (rule upt_add_eq_append) simp
  finally have a: "[k..<k + length (v # vs) + total_chapters (v # vs)] =
      k # [Suc k..<Suc k + ?c] @ [Suc k + ?c..<(Suc k + ?c) + length vs + total_chapters vs]"
    unfolding e by (simp only: add.assoc)
  show ?case
    unfolding a
    using toc_chapters_orders [of "Suc k" n 1 "vol_chapters v"] Cons [of "Suc k + ?c" "Suc n"]
    by (simp add: Let_def del: upt_Suc)
qed

lemma toc_volumes_points:
  "map nav_src (toc_volumes k n vs) =
     map (\<lambda>(n, volume). ascii ''vol'' @ str_of_nat n @ ascii ''_chap1.xhtml'') (enumerate n vs)"
  by (induction vs arbitrary: k n) (simp_all add: Let_def)

section \<open>Properties of the archiver\<close>


lemma walk_roots:
  "(\<forall>d \<in> set (walk r t). \<exists>sfx. fst d = r @ sfx \<and> (sfx = [] \<or> hd sfx = 47))"
  "(\<forall>d \<in> set (walk_subdirs r ts). \<exists>sfx. fst d = r @ sfx \<and> sfx \<noteq> [] \<and> hd sfx = 47)"
proof (induction r t and r ts rule: walk_walk_subdirs.induct)
  case (1 root files subdirs)
  then show ?case by fastforce
next
  case (2 root)
  then show ?case by simp
next
  case (3 root sub rest)
  have "\<forall>d \<in> set (walk (path_join root (fst sub)) (snd sub)).
      \<exists>sfx. fst d = root @ sfx \<and> sfx \<noteq> [] \<and> hd sfx = 47"
  proof
    fix d assume "d \<in> set (walk (path_join root (fst sub)) (snd sub))"
    then obtain sfx where "fst d = path_join root (fst sub) @ sfx" using 3(1) by blast
    then have "fst d = root @ ([47] @ fst sub @ sfx)" by (simp add: path_join_def)
    then show "\<exists>sfx. fst d = root @ sfx \<and> sfx \<noteq> [] \<and> hd sfx = 47" by fastforce
  qed
  then show ?case using 3(2) by auto
qed

lemma relpath_under_root:
  assumes "root = ascii ''epub'' @ sfx" and "sfx = [] \<or> hd sfx = 47"
    and "name \<noteq> ascii ''mimetype''"
  shows "relpath (path_join root name) (ascii ''epub'') \<noteq> ascii ''mimetype''
      \<and> path_join root name = ascii ''epub/'' @ relpath (path_join root name) (ascii ''epub'')"
proof (cases sfx)
  case Nil
  then show ?thesis
    using assms(1,3) by (simp add: relpath_def path_join_def ascii_def)
next
  case (Cons c cs)
  have c: "c = 47" using assms(2) Cons by simp
  have r: "relpath (path_join root name) (ascii ''epub'') = cs @ 47 # name"
    using assms(1) Cons by (simp add: relpath_def path_join_def ascii_def)
  have "47 \<in> set (cs @ 47 # name)" by simp
  moreover have "47 \<notin> set (ascii ''mimetype'')" by (simp add: ascii_def)
  ultimately have n: "cs @ 47 # name \<noteq> ascii ''mimetype''" by metis
  have "path_join root name = ascii ''epub/'' @ cs @ 47 # name"
    using assms(1) Cons c by (simp add: path_join_def ascii_def)
  then show ?thesis using r n by simp
qed

lemma zip_directory_entries:
  assumes "fst d = ascii ''epub'' @ sfx" and "sfx = [] \<or> hd sfx = 47"
  shows "list_all (\<lambda>e. compression e = ZIP_STORED \<and> arcname e \<noteq> ascii ''mimetype''
      \<and> source_path e = ascii ''epub/'' @ arcname e) (zip_directory d)"
  using relpath_under_root [OF assms]
  by (simp add: zip_directory_def archive_compression_def list_all_iff)

text \<open>
  Claim C9, as the code has it. When \<^verbatim>\<open>epub/mimetype\<close> exists, the first entry of the
  archive is \<^verbatim>\<open>mimetype\<close>, stored without compression. Every other file of the tree
  follows in the order of the walk, files named \<^verbatim>\<open>mimetype\<close> left out; each is stored
  without compression too, since the archive was opened with the library's default, and
  each has the archive name that, put after \<^verbatim>\<open>epub/\<close>, gives its path.
\<close>

theorem zip_epub_entries:
  assumes "ascii ''mimetype'' \<in> set (dir_files tree)"
  shows "\<exists>rest. zip_epub tree =
        Inr (\<lparr>arcname = ascii ''mimetype'', source_path = ascii ''epub/mimetype'',
              compression = ZIP_STORED\<rparr> # rest)
     \<and> list_all (\<lambda>e. compression e = ZIP_STORED \<and> arcname e \<noteq> ascii ''mimetype''
          \<and> source_path e = ascii ''epub/'' @ arcname e) rest
     \<and> map source_path rest =
          concat (map (\<lambda>d. map (path_join (fst d)) (filter (\<lambda>file. file \<noteq> ascii ''mimetype'') (snd d)))
                      (walk (ascii ''epub'') tree))"
proof -
  let ?rest = "concat (map zip_directory (walk (ascii ''epub'') tree))"
  have z: "zip_epub tree =
        Inr (\<lparr>arcname = ascii ''mimetype'', source_path = ascii ''epub/mimetype'',
              compression = ZIP_STORED\<rparr> # ?rest)"
    using assms by (simp add: zip_epub_def)
  have "\<forall>d \<in> set (walk (ascii ''epub'') tree).
      list_all (\<lambda>e. compression e = ZIP_STORED \<and> arcname e \<noteq> ascii ''mimetype''
          \<and> source_path e = ascii ''epub/'' @ arcname e) (zip_directory d)"
    using walk_roots(1) [of "ascii ''epub''" tree] zip_directory_entries by blast
  then have a: "list_all (\<lambda>e. compression e = ZIP_STORED \<and> arcname e \<noteq> ascii ''mimetype''
          \<and> source_path e = ascii ''epub/'' @ arcname e) ?rest"
    by (simp add: list_all_iff)
  have s: "map source_path ?rest =
      concat (map (\<lambda>d. map (path_join (fst d)) (filter (\<lambda>file. file \<noteq> ascii ''mimetype'') (snd d)))
                  (walk (ascii ''epub'') tree))"
    by (simp add: map_concat zip_directory_def comp_def)
  from z a s show ?thesis by blast
qed

text \<open>
  The tree that \<^verbatim>\<open>create_epub_structure\<close> and one chapter document leave behind.
\<close>

theorem zip_epub_entries_witness:
  "zip_epub (Dir [ascii ''mimetype'']
       [(ascii ''META-INF'', Dir [ascii ''container.xml''] []),
        (ascii ''OEBPS'', Dir [ascii ''vol1_chap1.xhtml''] [])]) =
     Inr [\<lparr>arcname = ascii ''mimetype'', source_path = ascii ''epub/mimetype'',
            compression = ZIP_STORED\<rparr>,
          \<lparr>arcname = ascii ''META-INF/container.xml'',
            source_path = ascii ''epub/META-INF/container.xml'', compression = ZIP_STORED\<rparr>,
          \<lparr>arcname = ascii ''OEBPS/vol1_chap1.xhtml'',
            source_path = ascii ''epub/OEBPS/vol1_chap1.xhtml'', compression = ZIP_STORED\<rparr>]"
proof -
  have h: "ascii ''mimetype'' \<in> set (dir_files (Dir [ascii ''mimetype'']
       [(ascii ''META-INF'', Dir [ascii ''container.xml''] []),
        (ascii ''OEBPS'', Dir [ascii ''vol1_chap1.xhtml''] [])]))"
    by simp
  obtain rest where "zip_epub (Dir [ascii ''mimetype'']
       [(ascii ''META-INF'', Dir [ascii ''container.xml''] []),
        (ascii ''OEBPS'', Dir [ascii ''vol1_chap1.xhtml''] [])]) =
      Inr (\<lparr>arcname = ascii ''mimetype'', source_path = ascii ''epub/mimetype'',
              compression = ZIP_STORED\<rparr> # rest)"
    using zip_epub_entries [OF h] by blast
  moreover have "zip_epub (Dir [ascii ''mimetype'']
       [(ascii ''META-INF'', Dir [ascii ''container.xml''] []),
        (ascii ''OEBPS'', Dir [ascii ''vol1_chap1.xhtml''] [])]) =
     Inr [\<lparr>arcname = ascii ''mimetype'', source_path = ascii ''epub/mimetype'',
            compression = ZIP_STORED\<rparr>,
          \<lparr>arcname = ascii ''META-INF/container.xml'',
            source_path = ascii ''epub/META-INF/container.xml'', compression = ZIP_STORED\<rparr>,
          \<lparr>arcname = ascii ''OEBPS/vol1_chap1.xhtml'',
            source_path = ascii ''epub/OEBPS/vol1_chap1.xhtml'', compression = ZIP_STORED\<rparr>]"
    by code_simp
  ultimately show ?thesis by simp
qed

text \<open>
  The claim as it was stated fails on a tree with one chapter document: its entry is
  stored, not deflated.
\<close>

theorem chapter_file_stored_uncompressed:
  "zip_epub (Dir [ascii ''mimetype''] [(ascii ''OEBPS'', Dir [ascii ''vol1_chap1.xhtml''] [])]) =
     Inr [\<lparr>arcname = ascii ''mimetype'', source_path = ascii ''epub/mimetype'',
            compression = ZIP_STORED\<rparr>,
          \<lparr>arcname = ascii ''OEBPS/vol1_chap1.xhtml'',
            source_path = ascii ''epub/OEBPS/vol1_chap1.xhtml'', compression = ZIP_STORED\<rparr>]
   \<and> ZIP_STORED \<noteq> ZIP_DEFLATED"
  by code_simp

end
